theory Spec2Isabelle
  imports Main "HOL-Library.Word"
begin

unbundle bit_operations_syntax

section \<open>Bedrock-IPC: byte buffer, packet encoder, serializers, reassembly listener\<close>

text \<open>
  The numbers that the code itself computes with as integers (byte values, character
  codes, lengths, the operands of the bitwise operators) are modelled as \<open>int\<close>: bitwise
  operators act on their two's-complement bits, as \<open>AND\<close>, \<open>OR\<close>, \<open>push_bit\<close> and
  \<open>drop_bit\<close> on \<open>int\<close> do.  The Numbers that a serializer is handed or returns are
  IEEE 754 binary64 values.  Byte-array cells are \<open>8 word\<close>, and a JavaScript string is
  the list of its UTF-16 code units.  Byte counts, offsets and cursors are \<open>nat\<close>.
  Generators are run to completion: a \<open>yield\<close> has no effect on the value returned.
\<close>

type_synonym byte = "8 word"
type_synonym jsstring = "16 word list"

subsection \<open>Errors thrown by the code\<close>

datatype error =
    BufferUnderflow nat int \<comment> \<open>\<open>Buffer underflow: requested n, available a\<close> (ByteBuffer.advance)\<close>
  | VarUInt32Underflow nat \<comment> \<open>\<open>Buffer underflow in VarUInt32 at byte i\<close>\<close>
  | MissingFragment nat \<comment> \<open>\<open>Missing fragment at index i\<close> (MessageListener.listen)\<close>
  | TypeError \<comment> \<open>a method of \<open>undefined\<close> is called, or \<open>BigInt(undefined)\<close>\<close>
  | RangeError \<comment> \<open>a \<open>DataView\<close> access outside the array\<close>
  | IllTyped \<comment> \<open>\<open>serialize\<close> was given a value that is not of the serializer's TypeScript
      type; what the coercions of JavaScript make of it is not modelled\<close>

subsection \<open>src/proto/ByteBuffer.ts\<close>

record ByteBuffer =
  bytes :: "byte list"
  writePos :: nat
  readPos :: nat

definition newByteBuffer :: "nat \<Rightarrow> ByteBuffer" where
  "newByteBuffer initialSize = \<lparr>bytes = replicate initialSize 0, writePos = 0, readPos = 0\<rparr>"

definition available :: "ByteBuffer \<Rightarrow> int" where
  "available b = int (writePos b) - int (readPos b)"

definition ensureCapacity :: "nat \<Rightarrow> ByteBuffer \<Rightarrow> ByteBuffer" where
  "ensureCapacity needed b =
     (let required = writePos b + needed in
      if required > length (bytes b) then
        (let newSize = max (length (bytes b) * 2) required in
         b\<lparr>bytes := bytes b @ replicate (newSize - length (bytes b)) 0\<rparr>)
      else b)"

definition allocate :: "nat \<Rightarrow> ByteBuffer \<Rightarrow> nat \<times> ByteBuffer" where
  "allocate sz b =
     (let b1 = ensureCapacity sz b; offset = writePos b1
      in (offset, b1\<lparr>writePos := writePos b1 + sz\<rparr>))"

text \<open>\<open>advance\<close> either throws or moves the read cursor.  The buffer is returned
  beside the outcome in both cases, so that what a \<open>throw\<close> leaves behind is visible.\<close>

definition advance :: "nat \<Rightarrow> ByteBuffer \<Rightarrow> (error + nat) \<times> ByteBuffer" where
  "advance sz b =
     (if int sz > available b then (Inl (BufferUnderflow sz (available b)), b)
      else (let offset = readPos b in (Inr offset, b\<lparr>readPos := readPos b + sz\<rparr>)))"

definition writeByte :: "int \<Rightarrow> ByteBuffer \<Rightarrow> ByteBuffer" where
  "writeByte v b =
     (let (offset, b1) = allocate 1 b
      in b1\<lparr>bytes := (bytes b1)[offset := word_of_int (v AND 0xFF)]\<rparr>)"

text \<open>\<open>readByte\<close>: an index outside the typed array reads \<open>undefined\<close> (\<open>None\<close>).\<close>

definition readByte :: "ByteBuffer \<Rightarrow> error + (int option \<times> ByteBuffer)" where
  "readByte b =
     (case advance 1 b of
        (Inl e, _) \<Rightarrow> Inl e
      | (Inr offset, b1) \<Rightarrow>
          Inr (if offset < length (bytes b1) then Some (uint (bytes b1 ! offset)) else None, b1))"

definition writeBytes :: "byte list \<Rightarrow> ByteBuffer \<Rightarrow> ByteBuffer" where
  "writeBytes data b =
     (let (offset, b1) = allocate (length data) b
      in b1\<lparr>bytes := take offset (bytes b1) @ data @ drop (offset + length data) (bytes b1)\<rparr>)"

definition resetRead :: "ByteBuffer \<Rightarrow> ByteBuffer" where
  "resetRead b = b\<lparr>readPos := 0\<rparr>"

definition toUint8Array :: "ByteBuffer \<Rightarrow> byte list" where
  "toUint8Array b = take (writePos b) (bytes b)"

text \<open>\<open>new ByteBuffer(initialSize)\<close> is \<open>newByteBuffer\<close> and the static
  \<open>ByteBuffer.from\<close> is \<open>fromBytes\<close>.\<close>

definition fromBytes :: "byte list \<Rightarrow> ByteBuffer" where
  "fromBytes data = resetRead (writeBytes data (newByteBuffer (length data)))"

subsection \<open>JavaScript string primitives used by the encoders\<close>

text \<open>\<open>Number.prototype.toString(16)\<close> on a non-negative integer: lower-case digits,
  no leading zeros.\<close>

definition hexDigitChar :: "int \<Rightarrow> 16 word" where
  "hexDigitChar d = (if d < 10 then word_of_int (48 + d) else word_of_int (87 + d))"

function toString16 :: "int \<Rightarrow> jsstring" where
  "toString16 n =
     (if n < 16 then [hexDigitChar n]
      else toString16 (n div 16) @ [hexDigitChar (n mod 16)])"
  by pat_completeness auto
termination
  by (relation "measure nat") auto

text \<open>\<open>String.prototype.padStart(2, '0')\<close>.\<close>

definition padStart2 :: "jsstring \<Rightarrow> jsstring" where
  "padStart2 s = replicate (2 - length s) 48 @ s"

text \<open>\<open>String.prototype.toUpperCase\<close>, on the code units \<open>a\<close>..\<open>z\<close>; the code applies
  it to strings of hexadecimal digits only.\<close>

definition toUpperCase :: "jsstring \<Rightarrow> jsstring" where
  "toUpperCase s = map (\<lambda>c. if 97 \<le> c \<and> c \<le> 122 then c - 32 else c) s"

text \<open>\<open>String.fromCharCode\<close> keeps the low 16 bits; \<open>charCodeAt\<close> is \<open>uint\<close>.\<close>

definition fromCharCode :: "int \<Rightarrow> 16 word" where
  "fromCharCode n = word_of_int n"

text \<open>\<open>parseInt(s, 16)\<close>: leading white space is skipped, then an optional sign, then an
  optional \<open>0x\<close>/\<open>0X\<close>, then the longest run of hexadecimal digits; \<open>None\<close> is NaN.\<close>

definition isStrWhiteSpace :: "16 word \<Rightarrow> bool" where
  "isStrWhiteSpace c \<longleftrightarrow>
     c = 9 \<or> c = 10 \<or> c = 11 \<or> c = 12 \<or> c = 13 \<or> c = 32 \<or> c = 160 \<or> c = 0x1680 \<or>
     (0x2000 \<le> c \<and> c \<le> 0x200A) \<or> c = 0x2028 \<or> c = 0x2029 \<or> c = 0x202F \<or>
     c = 0x205F \<or> c = 0x3000 \<or> c = 0xFEFF"

definition hexDigitValue :: "16 word \<Rightarrow> int option" where
  "hexDigitValue c =
     (if 48 \<le> c \<and> c \<le> 57 then Some (uint c - 48)
      else if 65 \<le> c \<and> c \<le> 70 then Some (uint c - 55)
      else if 97 \<le> c \<and> c \<le> 102 then Some (uint c - 87)
      else None)"

fun hexDigits :: "jsstring \<Rightarrow> int list" where
  "hexDigits [] = []"
| "hexDigits (c # cs) = (case hexDigitValue c of None \<Rightarrow> [] | Some d \<Rightarrow> d # hexDigits cs)"

definition parseInt16 :: "jsstring \<Rightarrow> int option" where
  "parseInt16 s =
     (let s1 = dropWhile isStrWhiteSpace s;
          sign = (case s1 of c # _ \<Rightarrow> if c = 45 then -1 else 1 | [] \<Rightarrow> 1);
          s2 = (case s1 of c # r \<Rightarrow> if c = 43 \<or> c = 45 then r else s1 | [] \<Rightarrow> s1);
          s3 = (case s2 of a # b # r \<Rightarrow> if a = 48 \<and> (b = 120 \<or> b = 88) then r else s2
                | _ \<Rightarrow> s2);
          z = hexDigits s3
      in if z = [] then None else Some (sign * foldl (\<lambda>acc d. acc * 16 + d) 0 z))"

text \<open>ToInt32 of an integer in the 32-bit range that may be NaN or \<open>undefined\<close>
  (\<open>None\<close>): both are 0.\<close>

definition toInt32 :: "int option \<Rightarrow> int" where
  "toInt32 r = (case r of None \<Rightarrow> 0 | Some n \<Rightarrow> n)"

text \<open>The text \<open>undefined\<close>, which \<open>fragment[j] + fragment[++j]\<close> appends when the
  second index is past the end of the fragment.\<close>

definition undefinedText :: jsstring where
  "undefinedText = [117, 110, 100, 101, 102, 105, 110, 101, 100]"

subsection \<open>src/net/encoding/PacketEncoder.ts\<close>

definition MAX_FRAGMENT_SIZE :: nat where
  "MAX_FRAGMENT_SIZE = 2048"

record encState =
  fragments :: "jsstring list"
  currentFragment :: jsstring
  currentSize :: nat

definition charCodeOf :: "byte \<Rightarrow> byte \<Rightarrow> int" where
  "charCodeOf low high = uint low OR push_bit 8 (uint high)"

definition charSizeOf :: "int \<Rightarrow> nat" where
  "charSizeOf charCode =
     (if charCode > 0xFF
      then (if charCode \<le> 0x7F then 1 else if charCode \<le> 0x7FF then 2 else 3)
      else 2)"

text \<open>One iteration of the loop of \<open>encode\<close> (lines 26-43), for the pair \<open>low\<close>, \<open>high\<close>.\<close>

definition encodeStep :: "nat \<Rightarrow> byte \<Rightarrow> byte \<Rightarrow> encState \<Rightarrow> encState" where
  "encodeStep maxSize low high st =
     (let charCode = charCodeOf low high;
          charSize = charSizeOf charCode;
          st1 = (if currentSize st + charSize > maxSize
                 then st\<lparr>fragments := fragments st @ [currentFragment st],
                         currentFragment := [], currentSize := 0\<rparr>
                 else st)
      in if charCode > 0xFF
         then st1\<lparr>currentFragment := currentFragment st1 @ [fromCharCode charCode],
                  currentSize := currentSize st1 + charSize\<rparr>
         else st1\<lparr>currentFragment :=
                    currentFragment st1 @ toUpperCase (padStart2 (toString16 charCode)),
                  currentSize := currentSize st1 + 2\<rparr>)"

text \<open>The loop \<open>for (i = 0; i < bytes.length; i += 2)\<close>; a trailing single byte is paired
  with \<open>high = 0\<close>.\<close>

fun encodeLoop :: "nat \<Rightarrow> byte list \<Rightarrow> encState \<Rightarrow> encState" where
  "encodeLoop maxSize [] st = st"
| "encodeLoop maxSize [low] st = encodeStep maxSize low 0 st"
| "encodeLoop maxSize (low # high # rest) st =
     encodeLoop maxSize rest (encodeStep maxSize low high st)"

definition encode :: "ByteBuffer \<Rightarrow> nat \<Rightarrow> jsstring list" where
  "encode buffer maxSize =
     (let st = encodeLoop maxSize (toUint8Array buffer)
                 \<lparr>fragments = [], currentFragment = [], currentSize = 0\<rparr>
      in if currentFragment st \<noteq> [] \<or> length (fragments st) = 0
         then fragments st @ [currentFragment st]
         else fragments st)"

text \<open>The inner loop of \<open>decode\<close> over the characters of one fragment.  A code unit
  \<open>\<le> 0xFF\<close> is read together with the next one (\<open>++j\<close>) as two hexadecimal digits.\<close>

definition writeHexPair :: "jsstring \<Rightarrow> ByteBuffer \<Rightarrow> ByteBuffer" where
  "writeHexPair hex buffer =
     (let hexCode = toInt32 (parseInt16 hex)
      in writeByte (drop_bit 8 hexCode) (writeByte (hexCode AND 0xFF) buffer))"

definition writeCharCode :: "int \<Rightarrow> ByteBuffer \<Rightarrow> ByteBuffer" where
  "writeCharCode charCode buffer =
     writeByte (drop_bit 8 charCode) (writeByte (charCode AND 0xFF) buffer)"

fun decodeFragment :: "jsstring \<Rightarrow> ByteBuffer \<Rightarrow> ByteBuffer" where
  "decodeFragment [] buffer = buffer"
| "decodeFragment [c] buffer =
     (if uint c \<le> 0xFF then writeHexPair (c # undefinedText) buffer
      else writeCharCode (uint c) buffer)"
| "decodeFragment (c # d # rest) buffer =
     (if uint c \<le> 0xFF then decodeFragment rest (writeHexPair [c, d] buffer)
      else decodeFragment (d # rest) (writeCharCode (uint c) buffer))"

fun decodeLoop :: "jsstring list \<Rightarrow> ByteBuffer \<Rightarrow> ByteBuffer" where
  "decodeLoop [] buffer = buffer"
| "decodeLoop (fragment # rest) buffer =
     (if fragment = [] then decodeLoop rest buffer
      else decodeLoop rest (decodeFragment fragment buffer))"

definition decode :: "jsstring list \<Rightarrow> ByteBuffer" where
  "decode frs =
     (let buffer = newByteBuffer 256 in
      if length frs = 0 then resetRead buffer
      else resetRead (decodeLoop frs buffer))"

subsection \<open>src/proto/serializers/PrimitiveSerializers.ts\<close>

text \<open>\<open>DataView\<close> stores and loads big-endian (no \<open>littleEndian\<close> argument is ever
  passed).  \<open>bytesBE n v\<close> are the low \<open>n\<close> bytes of the integer \<open>v\<close>, most significant
  first, which is what \<open>setInt8\<close> .. \<open>setUint32\<close> store after their modular conversion;
  \<open>uintBE\<close> reads them back unsigned and \<open>signedOf\<close> reinterprets as two's complement.\<close>

fun bytesBE :: "nat \<Rightarrow> int \<Rightarrow> byte list" where
  "bytesBE 0 v = []"
| "bytesBE (Suc n) v = bytesBE n (drop_bit 8 v) @ [word_of_int v]"

definition uintBE :: "byte list \<Rightarrow> int" where
  "uintBE bs = foldl (\<lambda>acc b. acc * 256 + uint b) 0 bs"

definition signedOf :: "nat \<Rightarrow> int \<Rightarrow> int" where
  "signedOf bits u = (if u \<ge> 2 ^ (bits - 1) then u - 2 ^ bits else u)"

text \<open>\<open>buffer.allocate(n)\<close> followed by a \<open>DataView\<close> store at the offset.\<close>

definition storeBE :: "nat \<Rightarrow> int \<Rightarrow> ByteBuffer \<Rightarrow> ByteBuffer" where
  "storeBE n v b =
     (let (offset, b1) = allocate n b
      in b1\<lparr>bytes := take offset (bytes b1) @ bytesBE n v @ drop (offset + n) (bytes b1)\<rparr>)"

text \<open>\<open>buffer.advance(n)\<close> followed by a \<open>DataView\<close> load at the offset, which throws a
  \<open>RangeError\<close> outside the array.\<close>

definition loadBE :: "nat \<Rightarrow> ByteBuffer \<Rightarrow> error + (int \<times> ByteBuffer)" where
  "loadBE n b =
     (case advance n b of
        (Inl e, _) \<Rightarrow> Inl e
      | (Inr offset, b1) \<Rightarrow>
          if offset + n \<le> length (bytes b1)
          then Inr (uintBE (take n (drop offset (bytes b1))), b1)
          else Inl RangeError)"

text \<open>\<open>VarUInt32Serializer\<close>.  \<open>value >>> 0\<close> keeps the low 32 bits.\<close>

function varUInt32Loop :: "int \<Rightarrow> ByteBuffer \<Rightarrow> ByteBuffer" where
  "varUInt32Loop v buffer =
     (if v \<ge> 0x80
      then varUInt32Loop (drop_bit 7 v) (writeByte ((v AND 0x7F) OR 0x80) buffer)
      else writeByte v buffer)"
  by pat_completeness auto
termination
  by (relation "measure (\<lambda>(v, b). nat v)") (auto simp: drop_bit_eq_div)

definition VarUInt32_serialize :: "int \<Rightarrow> ByteBuffer \<Rightarrow> ByteBuffer" where
  "VarUInt32_serialize v buffer = varUInt32Loop (take_bit 32 v) buffer"

text \<open>The reading loop, entered with the counter \<open>i\<close>, the shift and the value so far.
  \<open>|=\<close> and \<open><<\<close> work on 32-bit integers; the final \<open>>>> 0\<close> reads the result
  unsigned.  After five bytes the loop ends whatever the last byte said.\<close>

function varUInt32Read ::
  "nat \<Rightarrow> nat \<Rightarrow> 32 word \<Rightarrow> ByteBuffer \<Rightarrow> error + (int \<times> ByteBuffer)" where
  "varUInt32Read i shift v buffer =
     (if i < 5 then
        (if available buffer \<le> 0 then Inl (VarUInt32Underflow i)
         else (case readByte buffer of
                 Inl e \<Rightarrow> Inl e
               | Inr (byte, b1) \<Rightarrow>
                   (let v1 = v OR push_bit shift (word_of_int (toInt32 byte AND 0x7F))
                    in if toInt32 byte AND 0x80 = 0 then Inr (uint v1, b1)
                       else varUInt32Read (i + 1) (shift + 7) v1 b1)))
      else Inr (uint v, buffer))"
  by pat_completeness auto
termination
  by (relation "measure (\<lambda>(i, shift, v, b). 5 - i)") auto

definition VarUInt32_deserialize :: "ByteBuffer \<Rightarrow> error + (int \<times> ByteBuffer)" where
  "VarUInt32_deserialize buffer = varUInt32Read 0 0 0 buffer"

text \<open>\<open>VarInt32Serializer\<close>: zigzag on 32-bit integers around \<open>VarUInt32\<close>.\<close>

definition VarInt32_serialize :: "int \<Rightarrow> ByteBuffer \<Rightarrow> ByteBuffer" where
  "VarInt32_serialize v buffer =
     (let w = (word_of_int v :: 32 word);
          zigzag = push_bit 1 w XOR signed_drop_bit 31 w
      in VarUInt32_serialize (sint zigzag) buffer)"

definition VarInt32_deserialize :: "ByteBuffer \<Rightarrow> error + (int \<times> ByteBuffer)" where
  "VarInt32_deserialize buffer =
     (case VarUInt32_deserialize buffer of
        Inl e \<Rightarrow> Inl e
      | Inr (zigzag, b1) \<Rightarrow>
          (let z = (word_of_int zigzag :: 32 word)
           in Inr (sint (drop_bit 1 z XOR - (z AND 1)), b1)))"

text \<open>\<open>VarUInt64Serializer\<close> and \<open>VarInt64Serializer\<close>, on BigInt (unbounded) values.\<close>

function varUInt64Loop :: "int \<Rightarrow> ByteBuffer \<Rightarrow> ByteBuffer" where
  "varUInt64Loop v buffer =
     (if v \<ge> 0x80
      then varUInt64Loop (drop_bit 7 v) (writeByte ((v AND 0x7F) OR 0x80) buffer)
      else writeByte v buffer)"
  by pat_completeness auto
termination
  by (relation "measure (\<lambda>(v, b). nat v)") (auto simp: drop_bit_eq_div)

definition VarUInt64_serialize :: "int \<Rightarrow> ByteBuffer \<Rightarrow> ByteBuffer" where
  "VarUInt64_serialize v buffer = varUInt64Loop (take_bit 64 v) buffer"

text \<open>\<open>BigInt(buffer.readByte())\<close> throws a \<open>TypeError\<close> on \<open>undefined\<close>.\<close>

function varUInt64Read ::
  "nat \<Rightarrow> nat \<Rightarrow> int \<Rightarrow> ByteBuffer \<Rightarrow> error + (int \<times> ByteBuffer)" where
  "varUInt64Read i shift v buffer =
     (if i < 10 then
        (case readByte buffer of
           Inl e \<Rightarrow> Inl e
         | Inr (None, b1) \<Rightarrow> Inl TypeError
         | Inr (Some byte, b1) \<Rightarrow>
             (let v1 = v OR push_bit shift (byte AND 0x7F)
              in if byte AND 0x80 = 0 then Inr (take_bit 64 v1, b1)
                 else varUInt64Read (i + 1) (shift + 7) v1 b1))
      else Inr (take_bit 64 v, buffer))"
  by pat_completeness auto
termination
  by (relation "measure (\<lambda>(i, shift, v, b). 10 - i)") auto

definition VarUInt64_deserialize :: "ByteBuffer \<Rightarrow> error + (int \<times> ByteBuffer)" where
  "VarUInt64_deserialize buffer = varUInt64Read 0 0 0 buffer"

definition VarInt64_serialize :: "int \<Rightarrow> ByteBuffer \<Rightarrow> ByteBuffer" where
  "VarInt64_serialize v buffer =
     (let zigzag = push_bit 1 v XOR drop_bit 63 v
      in VarUInt64_serialize zigzag buffer)"

definition VarInt64_deserialize :: "ByteBuffer \<Rightarrow> error + (int \<times> ByteBuffer)" where
  "VarInt64_deserialize buffer =
     (case VarUInt64_deserialize buffer of
        Inl e \<Rightarrow> Inl e
      | Inr (zigzag, b1) \<Rightarrow> Inr (drop_bit 1 zigzag XOR - (zigzag AND 1), b1))"

text \<open>\<open>BooleanSerializer\<close>: \<open>readByte() !== 0\<close> is true for \<open>undefined\<close> too.\<close>

definition Boolean_serialize :: "bool \<Rightarrow> ByteBuffer \<Rightarrow> ByteBuffer" where
  "Boolean_serialize v buffer = writeByte (if v then 1 else 0) buffer"

definition Boolean_deserialize :: "ByteBuffer \<Rightarrow> error + (bool \<times> ByteBuffer)" where
  "Boolean_deserialize buffer =
     (case readByte buffer of
        Inl e \<Rightarrow> Inl e
      | Inr (byte, b1) \<Rightarrow> Inr (byte \<noteq> Some 0, b1))"

subsection \<open>src/proto/serializers/StringSerializer.ts\<close>

text \<open>The two loops over the code units.  The test of \<open>deserialize\<close> for a length that
  is \<open>undefined\<close> or \<open>null\<close> never fires, the length being a number, and has no branch
  here.\<close>

fun writeCharCodes :: "jsstring \<Rightarrow> ByteBuffer \<Rightarrow> ByteBuffer" where
  "writeCharCodes [] buffer = buffer"
| "writeCharCodes (c # cs) buffer = writeCharCodes cs (VarUInt32_serialize (uint c) buffer)"

definition String_serialize :: "jsstring \<Rightarrow> ByteBuffer \<Rightarrow> ByteBuffer" where
  "String_serialize v buffer =
     writeCharCodes v (VarUInt32_serialize (int (length v)) buffer)"

fun readCharCodes :: "nat \<Rightarrow> jsstring \<Rightarrow> ByteBuffer \<Rightarrow> error + (jsstring \<times> ByteBuffer)" where
  "readCharCodes 0 result buffer = Inr (result, buffer)"
| "readCharCodes (Suc n) result buffer =
     (case VarUInt32_deserialize buffer of
        Inl e \<Rightarrow> Inl e
      | Inr (charCode, b1) \<Rightarrow> readCharCodes n (result @ [fromCharCode charCode]) b1)"

definition String_deserialize :: "ByteBuffer \<Rightarrow> error + (jsstring \<times> ByteBuffer)" where
  "String_deserialize buffer =
     (case VarUInt32_deserialize buffer of
        Inl e \<Rightarrow> Inl e
      | Inr (len, b1) \<Rightarrow> readCharCodes (nat len) [] b1)"

subsection \<open>JavaScript Numbers and the number accessors of \<open>DataView\<close>\<close>

text \<open>
  A Number is an IEEE 754 binary64 value and is given here by its 64-bit pattern; NaN, of
  which a program can tell one value only, by the pattern \<open>0x7FF8000000000000\<close>.

  A finite value of a binary format is \<open>(-1)^s * M * 2^E\<close>, written \<open>FFin s M E\<close>.  For the
  format with \<open>eb\<close> exponent bits and \<open>mb\<close> fraction bits (8 and 23 for binary32, 11 and 52
  for binary64), \<open>decodeF eb mb\<close> reads a pattern and \<open>encodeF eb mb\<close> gives the pattern of
  the value of the format nearest to a given value, a tie going to the even significand and
  a value past the largest finite one to infinity (roundTiesToEven).  That is the
  conversion which \<open>setFloat32\<close> applies to a Number and which makes a Number of an
  integer; \<open>getFloat32\<close> and \<open>getFloat64\<close> return the Number of the value they read.
  NaN is stored as the quiet NaN without payload.
\<close>

datatype fval = FNaN | FInf bool | FFin bool int int

text \<open>The number of binary digits of a positive integer.\<close>

function bitLength :: "int \<Rightarrow> nat" where
  "bitLength n = (if n \<le> 0 then 0 else Suc (bitLength (n div 2)))"
  by pat_completeness auto
termination
  by (relation "measure nat") auto

text \<open>The exponent of the last place of the subnormal values, \<open>1 - bias - mb\<close> with
  \<open>bias = 2^(eb-1) - 1\<close>.\<close>

definition emin :: "nat \<Rightarrow> nat \<Rightarrow> int" where
  "emin eb mb = 2 - 2 ^ (eb - 1) - int mb"

definition decodeF :: "nat \<Rightarrow> nat \<Rightarrow> int \<Rightarrow> fval" where
  "decodeF eb mb w =
     (let s = odd (w div 2 ^ (eb + mb));
          e = (w div 2 ^ mb) mod 2 ^ eb;
          m = w mod 2 ^ mb
      in if e = 2 ^ eb - 1 then (if m = 0 then FInf s else FNaN)
         else if e = 0 then FFin s m (emin eb mb)
         else FFin s (2 ^ mb + m) (emin eb mb + e - 1))"

text \<open>The exponent of the last place that the format keeps of \<open>M * 2^E\<close>: that of a
  significand of \<open>mb + 1\<close> digits, and not below \<open>emin\<close>.\<close>

definition quantum :: "nat \<Rightarrow> nat \<Rightarrow> int \<Rightarrow> int \<Rightarrow> int" where
  "quantum eb mb M E = max (emin eb mb) (E + int (bitLength M) - int mb - 1)"

text \<open>\<open>M / 2^sh\<close> rounded to the nearest integer, a tie to the even one.\<close>

definition roundHalfEven :: "int \<Rightarrow> nat \<Rightarrow> int" where
  "roundHalfEven M sh =
     (let Mq = M div 2 ^ sh; r = M mod 2 ^ sh; half = 2 ^ (sh - 1)
      in if r > half \<or> (r = half \<and> odd Mq) then Mq + 1 else Mq)"

text \<open>The pattern, without the sign bit, of the magnitude \<open>M * 2^E\<close> rounded to the format.
  The rounded significand is added to the exponent field, so that a carry out of the
  fraction moves to the next exponent; what reaches the exponent of all ones is infinity.\<close>

definition roundF :: "nat \<Rightarrow> nat \<Rightarrow> int \<Rightarrow> int \<Rightarrow> int" where
  "roundF eb mb M E =
     (if M = 0 then 0
      else (let q = quantum eb mb M E;
                Mr = (if q \<le> E then M * 2 ^ nat (E - q) else roundHalfEven M (nat (q - E)))
            in min ((q - emin eb mb) * 2 ^ mb + Mr) ((2 ^ eb - 1) * 2 ^ mb)))"

definition signBit :: "nat \<Rightarrow> nat \<Rightarrow> bool \<Rightarrow> int" where
  "signBit eb mb s = (if s then 2 ^ (eb + mb) else 0)"

definition encodeF :: "nat \<Rightarrow> nat \<Rightarrow> fval \<Rightarrow> int" where
  "encodeF eb mb v =
     (case v of
        FNaN \<Rightarrow> (2 ^ eb - 1) * 2 ^ mb + 2 ^ (mb - 1)
      | FInf s \<Rightarrow> signBit eb mb s + (2 ^ eb - 1) * 2 ^ mb
      | FFin s M E \<Rightarrow> signBit eb mb s + roundF eb mb M E)"

text \<open>The values that the format holds exactly: nothing is cut off at the last place, and
  the exponent is in range.\<close>

definition representable :: "nat \<Rightarrow> nat \<Rightarrow> fval \<Rightarrow> bool" where
  "representable eb mb v =
     (case v of
        FFin s M E \<Rightarrow>
          M = 0 \<or>
          (let q = quantum eb mb M E
           in (q \<le> E \<or> M mod 2 ^ nat (q - E) = 0) \<and> q - emin eb mb < 2 ^ eb - 2)
      | _ \<Rightarrow> True)"

type_synonym number = "64 word"

definition NaN :: number where
  "NaN = 0x7FF8000000000000"

definition decodeNumber :: "number \<Rightarrow> fval" where
  "decodeNumber d = decodeF 11 52 (uint d)"

definition numberOf :: "fval \<Rightarrow> number" where
  "numberOf v = word_of_int (encodeF 11 52 v)"

text \<open>The patterns that stand for a Number: of the NaN patterns, \<open>NaN\<close> only.\<close>

definition isNumber :: "number \<Rightarrow> bool" where
  "isNumber d \<longleftrightarrow> d = NaN \<or> decodeNumber d \<noteq> FNaN"

text \<open>The Number of an integer, as \<open>getInt8\<close> .. \<open>getUint32\<close> and \<open>>>> 0\<close> return it.\<close>

definition numberOfInt :: "int \<Rightarrow> number" where
  "numberOfInt n = numberOf (FFin (n < 0) \<bar>n\<bar> 0)"

text \<open>The integer that \<open>setInt8\<close> .. \<open>setUint32\<close>, \<open>>>>\<close>, \<open><<\<close> and \<open>>>\<close> make of a Number
  before they reduce it modulo \<open>2^8\<close>, \<open>2^16\<close> or \<open>2^32\<close>: the Number cut off towards zero,
  and 0 for NaN and the infinities.\<close>

definition toInteger :: "number \<Rightarrow> int" where
  "toInteger d =
     (case decodeNumber d of
        FFin s M E \<Rightarrow>
          (if s then - 1 else 1) * (if 0 \<le> E then M * 2 ^ nat E else M div 2 ^ nat (- E))
      | _ \<Rightarrow> 0)"

text \<open>The Numbers that are integers, \<open>-0\<close> left out.\<close>

definition isInteger :: "number \<Rightarrow> bool" where
  "isInteger d \<longleftrightarrow>
     (case decodeNumber d of
        FFin s M E \<Rightarrow> (M \<noteq> 0 \<or> \<not> s) \<and> (0 \<le> E \<or> M mod 2 ^ nat (- E) = 0)
      | _ \<Rightarrow> False)"

text \<open>What \<open>setFloat32\<close> and \<open>setFloat64\<close> store for a Number, as an unsigned integer of 4
  or 8 bytes, and what \<open>getFloat32\<close> and \<open>getFloat64\<close> return for such an integer.\<close>

definition float32Bits :: "number \<Rightarrow> int" where
  "float32Bits d = encodeF 8 23 (decodeNumber d)"

definition float64Bits :: "number \<Rightarrow> int" where
  "float64Bits d = encodeF 11 52 (decodeNumber d)"

definition numberOfFloat32 :: "int \<Rightarrow> number" where
  "numberOfFloat32 u = numberOf (decodeF 8 23 u)"

definition numberOfFloat64 :: "int \<Rightarrow> number" where
  "numberOfFloat64 u = numberOf (decodeF 11 52 u)"

subsection \<open>Values and serializer schemas\<close>

text \<open>A JavaScript value, as far as the serializers distinguish values.  An object is the
  list of its own properties, a \<open>Map\<close> the list of its entries and a \<open>Set\<close> the list of its
  elements, in insertion order.  \<open>VOther\<close> stands for the values that no serializer's
  type holds and that every plain object inherits from \<open>Object.prototype\<close>: its methods
  and, under \<open>__proto__\<close>, the prototype itself.\<close>

datatype jsval =
    VUndefined
  | VNull
  | VBool bool
  | VNum number
  | VBigInt int
  | VStr jsstring
  | VArr "jsval list"
  | VObj "(jsstring \<times> jsval) list"
  | VMap "(jsval \<times> jsval) list"
  | VSet "jsval list"
  | VOther

text \<open>A serializer object.  The composite serializers hold their children; the children
  of \<open>ArraySerializer\<close>, \<open>ObjectSerializer\<close> and \<open>TupleSerializer\<close>, which the code tests
  for \<open>undefined\<close>, are optional, \<open>None\<close> being \<open>undefined\<close>.  An object schema is the list
  of its keys in the order \<open>for (const key in schema)\<close> enumerates them.\<close>

datatype ser =
    BooleanSerializer
  | Int8Serializer
  | Int16Serializer
  | Int32Serializer
  | UInt8Serializer
  | UInt16Serializer
  | UInt32Serializer
  | Float32Serializer
  | Float64Serializer
  | VarUInt32Serializer
  | VarInt32Serializer
  | VarUInt64Serializer
  | VarInt64Serializer
  | StringSerializer
  | ArraySerializer "ser option"
  | ObjectSerializer "(jsstring \<times> ser option) list"
  | TupleSerializer "ser option list"
  | OptionalSerializer ser
  | MapSerializer ser ser
  | SetSerializer ser

text \<open>\<open>Map.prototype.set\<close> and \<open>Set.prototype.add\<close> compare keys by SameValueZero and
  store \<open>-0\<close> as \<open>+0\<close>.  Arrays, objects, maps and sets are compared by identity, and
  each one the deserializer builds is a new object: never the same as an earlier one.\<close>

fun canonKey :: "jsval \<Rightarrow> jsval" where
  "canonKey (VNum d) = (if d = 0x8000000000000000 then VNum 0 else VNum d)"
| "canonKey v = v"

fun sameValueZero :: "jsval \<Rightarrow> jsval \<Rightarrow> bool" where
  "sameValueZero VUndefined VUndefined = True"
| "sameValueZero VNull VNull = True"
| "sameValueZero (VBool a) (VBool b) = (a = b)"
| "sameValueZero (VNum a) (VNum b) =
     (canonKey (VNum a) = canonKey (VNum b) \<or> (decodeNumber a = FNaN \<and> decodeNumber b = FNaN))"
| "sameValueZero (VBigInt a) (VBigInt b) = (a = b)"
| "sameValueZero (VStr a) (VStr b) = (a = b)"
| "sameValueZero _ _ = False"

definition setAdd :: "jsval list \<Rightarrow> jsval \<Rightarrow> jsval list" where
  "setAdd result x =
     (if list_ex (\<lambda>y. sameValueZero y x) result then result else result @ [canonKey x])"

definition mapSet :: "(jsval \<times> jsval) list \<Rightarrow> jsval \<Rightarrow> jsval \<Rightarrow> (jsval \<times> jsval) list" where
  "mapSet result k x =
     (if list_ex (\<lambda>e. sameValueZero (fst e) k) result
      then map (\<lambda>e. if sameValueZero (fst e) k then (fst e, x) else e) result
      else result @ [(canonKey k, x)])"

text \<open>The code units of a text of ASCII characters, and the names of the properties of
  \<open>Object.prototype\<close>.  All of them are methods except \<open>__proto__\<close>, which is an accessor:
  its getter returns the prototype of the object and its setter replaces it.\<close>

definition ascii :: "string \<Rightarrow> jsstring" where
  "ascii s = map of_char s"

definition protoKey :: jsstring where
  "protoKey = ascii ''__proto__''"

definition objectPrototypeKeys :: "jsstring list" where
  "objectPrototypeKeys =
     map ascii [''constructor'', ''__defineGetter__'', ''__defineSetter__'', ''hasOwnProperty'',
       ''__lookupGetter__'', ''__lookupSetter__'', ''isPrototypeOf'', ''propertyIsEnumerable'',
       ''toString'', ''valueOf'', ''__proto__'', ''toLocaleString'']"

text \<open>\<open>result[key] = value\<close> on the plain object that a deserializer builds.  Under the
  key \<open>__proto__\<close> the assignment runs the inherited setter and creates no property (the
  setter makes an object or \<open>null\<close> the prototype of \<open>result\<close> and ignores any other
  value; a prototype is no part of a \<open>jsval\<close>).\<close>

definition objSet :: "(jsstring \<times> jsval) list \<Rightarrow> jsstring \<Rightarrow> jsval \<Rightarrow> (jsstring \<times> jsval) list" where
  "objSet result key x =
     (if key = protoKey then result
      else if key \<in> set (map fst result)
      then map (\<lambda>e. if fst e = key then (key, x) else e) result
      else result @ [(key, x)])"

text \<open>\<open>value[key]\<close> on a plain object: the own property, else what \<open>Object.prototype\<close>
  has under that name, else \<open>undefined\<close>.  \<open>value[i]\<close> on an array: \<open>undefined\<close> past the
  end.\<close>

definition getProp :: "(jsstring \<times> jsval) list \<Rightarrow> jsstring \<Rightarrow> jsval" where
  "getProp props key =
     (case map_of props key of
        Some x \<Rightarrow> x
      | None \<Rightarrow> if key \<in> set objectPrototypeKeys then VOther else VUndefined)"

definition getIndex :: "jsval list \<Rightarrow> nat \<Rightarrow> jsval" where
  "getIndex items i = (if i < length items then items ! i else VUndefined)"

subsection \<open>src/proto/serializers/CollectionSerializers.ts and the serializer contract\<close>

text \<open>The loops of the composite serializers.  \<open>forEachM\<close> is a \<open>for .. of\<close> loop whose
  body writes; \<open>loopM\<close> is \<open>for (let i = 0; i < n; i++)\<close> and \<open>foldM\<close> a loop over a
  list, with a body that reads and updates \<open>result\<close>.  A throw in the body ends the loop.\<close>

fun forEachM :: "('a \<Rightarrow> ByteBuffer \<Rightarrow> error + ByteBuffer) \<Rightarrow> 'a list \<Rightarrow> ByteBuffer \<Rightarrow> error + ByteBuffer" where
  "forEachM body [] buffer = Inr buffer"
| "forEachM body (x # xs) buffer =
     (case body x buffer of Inl e \<Rightarrow> Inl e | Inr b1 \<Rightarrow> forEachM body xs b1)"

fun loopM ::
  "nat \<Rightarrow> ('r \<Rightarrow> ByteBuffer \<Rightarrow> error + ('r \<times> ByteBuffer)) \<Rightarrow> 'r \<Rightarrow> ByteBuffer
     \<Rightarrow> error + ('r \<times> ByteBuffer)" where
  "loopM 0 body result buffer = Inr (result, buffer)"
| "loopM (Suc n) body result buffer =
     (case body result buffer of
        Inl e \<Rightarrow> Inl e
      | Inr (r1, b1) \<Rightarrow> loopM n body r1 b1)"

fun foldM ::
  "('x \<Rightarrow> 'r \<Rightarrow> ByteBuffer \<Rightarrow> error + ('r \<times> ByteBuffer)) \<Rightarrow> 'x list \<Rightarrow> 'r \<Rightarrow> ByteBuffer
     \<Rightarrow> error + ('r \<times> ByteBuffer)" where
  "foldM body [] result buffer = Inr (result, buffer)"
| "foldM body (x # xs) result buffer =
     (case body x result buffer of
        Inl e \<Rightarrow> Inl e
      | Inr (r1, b1) \<Rightarrow> foldM body xs r1 b1)"

lemma forEachM_cong [fundef_cong]:
  assumes "xs = ys" "buffer = buffer'"
    and "\<And>x b. x \<in> set ys \<Longrightarrow> body x b = body' x b"
  shows "forEachM body xs buffer = forEachM body' ys buffer'"
  unfolding assms(1,2) using assms(3)
  by (induction ys arbitrary: buffer') (auto split: sum.splits)

lemma foldM_cong [fundef_cong]:
  assumes "xs = ys" "result = result'" "buffer = buffer'"
    and "\<And>x r b. x \<in> set ys \<Longrightarrow> body x r b = body' x r b"
  shows "foldM body xs result buffer = foldM body' ys result' buffer'"
  unfolding assms(1,2,3) using assms(4)
  by (induction ys arbitrary: result' buffer') (auto split: sum.splits)

text \<open>\<open>serialize\<close>, by class.  The integer classes hand the Number to \<open>setInt8\<close> ..
  \<open>setUint32\<close> or to the 32-bit operators, which cut it off to an integer (\<open>toInteger\<close>)
  and keep the low bits; the float classes hand it to \<open>setFloat32\<close> and \<open>setFloat64\<close>.
  A tuple pairs its serializers with \<open>value[i]\<close>.\<close>

function (sequential) serialize :: "ser \<Rightarrow> jsval \<Rightarrow> ByteBuffer \<Rightarrow> error + ByteBuffer" where
  "serialize BooleanSerializer v buffer =
     (case v of VBool x \<Rightarrow> Inr (Boolean_serialize x buffer) | _ \<Rightarrow> Inl IllTyped)"
| "serialize Int8Serializer v buffer =
     (case v of VNum d \<Rightarrow> Inr (storeBE 1 (toInteger d) buffer) | _ \<Rightarrow> Inl IllTyped)"
| "serialize Int16Serializer v buffer =
     (case v of VNum d \<Rightarrow> Inr (storeBE 2 (toInteger d) buffer) | _ \<Rightarrow> Inl IllTyped)"
| "serialize Int32Serializer v buffer =
     (case v of VNum d \<Rightarrow> Inr (storeBE 4 (toInteger d) buffer) | _ \<Rightarrow> Inl IllTyped)"
| "serialize UInt8Serializer v buffer =
     (case v of VNum d \<Rightarrow> Inr (storeBE 1 (toInteger d) buffer) | _ \<Rightarrow> Inl IllTyped)"
| "serialize UInt16Serializer v buffer =
     (case v of VNum d \<Rightarrow> Inr (storeBE 2 (toInteger d) buffer) | _ \<Rightarrow> Inl IllTyped)"
| "serialize UInt32Serializer v buffer =
     (case v of VNum d \<Rightarrow> Inr (storeBE 4 (toInteger d) buffer) | _ \<Rightarrow> Inl IllTyped)"
| "serialize Float32Serializer v buffer =
     (case v of VNum d \<Rightarrow> Inr (storeBE 4 (float32Bits d) buffer) | _ \<Rightarrow> Inl IllTyped)"
| "serialize Float64Serializer v buffer =
     (case v of VNum d \<Rightarrow> Inr (storeBE 8 (float64Bits d) buffer) | _ \<Rightarrow> Inl IllTyped)"
| "serialize VarUInt32Serializer v buffer =
     (case v of VNum d \<Rightarrow> Inr (VarUInt32_serialize (toInteger d) buffer) | _ \<Rightarrow> Inl IllTyped)"
| "serialize VarInt32Serializer v buffer =
     (case v of VNum d \<Rightarrow> Inr (VarInt32_serialize (toInteger d) buffer) | _ \<Rightarrow> Inl IllTyped)"
| "serialize VarUInt64Serializer v buffer =
     (case v of VBigInt n \<Rightarrow> Inr (VarUInt64_serialize n buffer) | _ \<Rightarrow> Inl IllTyped)"
| "serialize VarInt64Serializer v buffer =
     (case v of VBigInt n \<Rightarrow> Inr (VarInt64_serialize n buffer) | _ \<Rightarrow> Inl IllTyped)"
| "serialize StringSerializer v buffer =
     (case v of VStr s \<Rightarrow> Inr (String_serialize s buffer) | _ \<Rightarrow> Inl IllTyped)"
| "serialize (ArraySerializer elementSerializer) v buffer =
     (case v of
        VArr items \<Rightarrow>
          forEachM
            (\<lambda>item b. case elementSerializer of
                         None \<Rightarrow> Inl TypeError
                       | Some s \<Rightarrow> serialize s item b)
            items (VarUInt32_serialize (int (length items)) buffer)
      | _ \<Rightarrow> Inl IllTyped)"
| "serialize (ObjectSerializer schema) v buffer =
     (case v of
        VObj props \<Rightarrow>
          forEachM
            (\<lambda>field b. case snd field of
                          None \<Rightarrow> Inl TypeError
                        | Some s \<Rightarrow> serialize s (getProp props (fst field)) b)
            schema buffer
      | _ \<Rightarrow> Inl IllTyped)"
| "serialize (TupleSerializer serializers) v buffer =
     (case v of
        VArr items \<Rightarrow>
          forEachM
            (\<lambda>p b. case snd p of
                      None \<Rightarrow> Inl TypeError
                    | Some s \<Rightarrow> serialize s (getIndex items (fst p)) b)
            (zip [0..<length serializers] serializers) buffer
      | _ \<Rightarrow> Inl IllTyped)"
| "serialize (OptionalSerializer serializer) v buffer =
     (let isDefined = (v \<noteq> VUndefined \<and> v \<noteq> VNull);
          b1 = Boolean_serialize isDefined buffer
      in if isDefined then serialize serializer v b1 else Inr b1)"
| "serialize (MapSerializer keySerializer valueSerializer) v buffer =
     (case v of
        VMap entries \<Rightarrow>
          forEachM
            (\<lambda>entry b. case serialize keySerializer (fst entry) b of
                          Inl e \<Rightarrow> Inl e
                        | Inr b1 \<Rightarrow> serialize valueSerializer (snd entry) b1)
            entries (VarUInt32_serialize (int (length entries)) buffer)
      | _ \<Rightarrow> Inl IllTyped)"
| "serialize (SetSerializer elementSerializer) v buffer =
     (case v of
        VSet items \<Rightarrow>
          forEachM (\<lambda>item b. serialize elementSerializer item b)
            items (VarUInt32_serialize (int (length items)) buffer)
      | _ \<Rightarrow> Inl IllTyped)"
  by pat_completeness auto

lemma size_option_member:
  "so \<in> set ss \<Longrightarrow> so = Some s \<Longrightarrow> size s < Suc (size_list (size_option size) ss)"
  by (induction ss) auto

lemma size_field_member:
  "(key, Some s) \<in> set schema \<Longrightarrow>
   size s < Suc (size_list (size_prod (\<lambda>x. 0) (size_option size)) schema)"
  by (induction schema) auto

termination serialize
  by (relation "measure (\<lambda>(s, v, b). size s)")
     (auto dest!: set_zip_rightD simp: size_option_member size_field_member)

text \<open>\<open>deserialize\<close>, by class.  With an \<open>undefined\<close> element serializer the array
  deserializer logs and returns the empty array; with an \<open>undefined\<close> field or position
  serializer the object and tuple deserializers log and \<open>continue\<close>.\<close>

fun deserialize :: "ser \<Rightarrow> ByteBuffer \<Rightarrow> error + (jsval \<times> ByteBuffer)" where
  "deserialize BooleanSerializer buffer =
     (case Boolean_deserialize buffer of Inl e \<Rightarrow> Inl e | Inr (x, b1) \<Rightarrow> Inr (VBool x, b1))"
| "deserialize Int8Serializer buffer =
     (case loadBE 1 buffer of
        Inl e \<Rightarrow> Inl e
      | Inr (u, b1) \<Rightarrow> Inr (VNum (numberOfInt (signedOf 8 u)), b1))"
| "deserialize Int16Serializer buffer =
     (case loadBE 2 buffer of
        Inl e \<Rightarrow> Inl e
      | Inr (u, b1) \<Rightarrow> Inr (VNum (numberOfInt (signedOf 16 u)), b1))"
| "deserialize Int32Serializer buffer =
     (case loadBE 4 buffer of
        Inl e \<Rightarrow> Inl e
      | Inr (u, b1) \<Rightarrow> Inr (VNum (numberOfInt (signedOf 32 u)), b1))"
| "deserialize UInt8Serializer buffer =
     (case loadBE 1 buffer of Inl e \<Rightarrow> Inl e | Inr (u, b1) \<Rightarrow> Inr (VNum (numberOfInt u), b1))"
| "deserialize UInt16Serializer buffer =
     (case loadBE 2 buffer of Inl e \<Rightarrow> Inl e | Inr (u, b1) \<Rightarrow> Inr (VNum (numberOfInt u), b1))"
| "deserialize UInt32Serializer buffer =
     (case loadBE 4 buffer of Inl e \<Rightarrow> Inl e | Inr (u, b1) \<Rightarrow> Inr (VNum (numberOfInt u), b1))"
| "deserialize Float32Serializer buffer =
     (case loadBE 4 buffer of Inl e \<Rightarrow> Inl e | Inr (u, b1) \<Rightarrow> Inr (VNum (numberOfFloat32 u), b1))"
| "deserialize Float64Serializer buffer =
     (case loadBE 8 buffer of Inl e \<Rightarrow> Inl e | Inr (u, b1) \<Rightarrow> Inr (VNum (numberOfFloat64 u), b1))"
| "deserialize VarUInt32Serializer buffer =
     (case VarUInt32_deserialize buffer of
        Inl e \<Rightarrow> Inl e
      | Inr (n, b1) \<Rightarrow> Inr (VNum (numberOfInt n), b1))"
| "deserialize VarInt32Serializer buffer =
     (case VarInt32_deserialize buffer of
        Inl e \<Rightarrow> Inl e
      | Inr (n, b1) \<Rightarrow> Inr (VNum (numberOfInt n), b1))"
| "deserialize VarUInt64Serializer buffer =
     (case VarUInt64_deserialize buffer of Inl e \<Rightarrow> Inl e | Inr (n, b1) \<Rightarrow> Inr (VBigInt n, b1))"
| "deserialize VarInt64Serializer buffer =
     (case VarInt64_deserialize buffer of Inl e \<Rightarrow> Inl e | Inr (n, b1) \<Rightarrow> Inr (VBigInt n, b1))"
| "deserialize StringSerializer buffer =
     (case String_deserialize buffer of Inl e \<Rightarrow> Inl e | Inr (s, b1) \<Rightarrow> Inr (VStr s, b1))"
| "deserialize (ArraySerializer elementSerializer) buffer =
     (case VarUInt32_deserialize buffer of
        Inl e \<Rightarrow> Inl e
      | Inr (len, b1) \<Rightarrow>
          (case elementSerializer of
             None \<Rightarrow> Inr (VArr [], b1)
           | Some s \<Rightarrow>
               (case loopM (nat len)
                       (\<lambda>result b. case deserialize s b of
                                      Inl e \<Rightarrow> Inl e
                                    | Inr (x, b2) \<Rightarrow> Inr (result @ [x], b2))
                       [] b1 of
                  Inl e \<Rightarrow> Inl e
                | Inr (result, b2) \<Rightarrow> Inr (VArr result, b2))))"
| "deserialize (ObjectSerializer schema) buffer =
     (case foldM
             (\<lambda>field result b. case snd field of
                                  None \<Rightarrow> Inr (result, b)
                                | Some s \<Rightarrow>
                                    (case deserialize s b of
                                       Inl e \<Rightarrow> Inl e
                                     | Inr (x, b1) \<Rightarrow> Inr (objSet result (fst field) x, b1)))
             schema [] buffer of
        Inl e \<Rightarrow> Inl e
      | Inr (result, b1) \<Rightarrow> Inr (VObj result, b1))"
| "deserialize (TupleSerializer serializers) buffer =
     (case foldM
             (\<lambda>serializer result b. case serializer of
                                       None \<Rightarrow> Inr (result, b)
                                     | Some s \<Rightarrow>
                                         (case deserialize s b of
                                            Inl e \<Rightarrow> Inl e
                                          | Inr (x, b1) \<Rightarrow> Inr (result @ [x], b1)))
             serializers [] buffer of
        Inl e \<Rightarrow> Inl e
      | Inr (result, b1) \<Rightarrow> Inr (VArr result, b1))"
| "deserialize (OptionalSerializer serializer) buffer =
     (case Boolean_deserialize buffer of
        Inl e \<Rightarrow> Inl e
      | Inr (isDefined, b1) \<Rightarrow>
          if isDefined then deserialize serializer b1 else Inr (VUndefined, b1))"
| "deserialize (MapSerializer keySerializer valueSerializer) buffer =
     (case VarUInt32_deserialize buffer of
        Inl e \<Rightarrow> Inl e
      | Inr (sz, b1) \<Rightarrow>
          (case loopM (nat sz)
                  (\<lambda>result b. case deserialize keySerializer b of
                                 Inl e \<Rightarrow> Inl e
                               | Inr (key, b2) \<Rightarrow>
                                   (case deserialize valueSerializer b2 of
                                      Inl e \<Rightarrow> Inl e
                                    | Inr (val, b3) \<Rightarrow> Inr (mapSet result key val, b3)))
                  [] b1 of
             Inl e \<Rightarrow> Inl e
           | Inr (result, b2) \<Rightarrow> Inr (VMap result, b2)))"
| "deserialize (SetSerializer elementSerializer) buffer =
     (case VarUInt32_deserialize buffer of
        Inl e \<Rightarrow> Inl e
      | Inr (sz, b1) \<Rightarrow>
          (case loopM (nat sz)
                  (\<lambda>result b. case deserialize elementSerializer b of
                                 Inl e \<Rightarrow> Inl e
                               | Inr (x, b2) \<Rightarrow> Inr (setAdd result x, b2))
                  [] b1 of
             Inl e \<Rightarrow> Inl e
           | Inr (result, b2) \<Rightarrow> Inr (VSet result, b2)))"

text \<open>The values of a serializer's type that are written and read back unchanged.  For
  an integer class: the Numbers that are integers of the range of the width (\<open>-0\<close>, which
  the integer formats do not tell from 0, is left out).  For \<open>Float64\<close>: every Number.
  For \<open>Float32\<close>: the Numbers that binary32 holds exactly.  A string or collection has
  fewer than \<open>2^32\<close> elements, an object has exactly the keys of its schema (listed in
  the schema's order), none of them \<open>__proto__\<close>, a tuple has one item per serializer,
  every child serializer is defined, and the keys of a map and the elements of a set are
  those a JavaScript \<open>Map\<close> or \<open>Set\<close> can hold side by side.  An absent optional value
  is \<open>undefined\<close>; \<open>null\<close> is left out.\<close>

fun distinctKeys :: "jsval list \<Rightarrow> bool" where
  "distinctKeys [] = True"
| "distinctKeys (k # ks) =
     (canonKey k = k \<and> list_all (\<lambda>j. \<not> sameValueZero k j) ks \<and> distinctKeys ks)"

fun valid :: "ser \<Rightarrow> jsval \<Rightarrow> bool" where
  "valid BooleanSerializer v = (case v of VBool x \<Rightarrow> True | _ \<Rightarrow> False)"
| "valid Int8Serializer v =
     (case v of VNum d \<Rightarrow> isInteger d \<and> - (2 ^ 7) \<le> toInteger d \<and> toInteger d < 2 ^ 7 | _ \<Rightarrow> False)"
| "valid Int16Serializer v =
     (case v of VNum d \<Rightarrow> isInteger d \<and> - (2 ^ 15) \<le> toInteger d \<and> toInteger d < 2 ^ 15 | _ \<Rightarrow> False)"
| "valid Int32Serializer v =
     (case v of VNum d \<Rightarrow> isInteger d \<and> - (2 ^ 31) \<le> toInteger d \<and> toInteger d < 2 ^ 31 | _ \<Rightarrow> False)"
| "valid UInt8Serializer v =
     (case v of VNum d \<Rightarrow> isInteger d \<and> 0 \<le> toInteger d \<and> toInteger d < 2 ^ 8 | _ \<Rightarrow> False)"
| "valid UInt16Serializer v =
     (case v of VNum d \<Rightarrow> isInteger d \<and> 0 \<le> toInteger d \<and> toInteger d < 2 ^ 16 | _ \<Rightarrow> False)"
| "valid UInt32Serializer v =
     (case v of VNum d \<Rightarrow> isInteger d \<and> 0 \<le> toInteger d \<and> toInteger d < 2 ^ 32 | _ \<Rightarrow> False)"
| "valid Float32Serializer v =
     (case v of VNum d \<Rightarrow> isNumber d \<and> representable 8 23 (decodeNumber d) | _ \<Rightarrow> False)"
| "valid Float64Serializer v = (case v of VNum d \<Rightarrow> isNumber d | _ \<Rightarrow> False)"
| "valid VarUInt32Serializer v =
     (case v of VNum d \<Rightarrow> isInteger d \<and> 0 \<le> toInteger d \<and> toInteger d < 2 ^ 32 | _ \<Rightarrow> False)"
| "valid VarInt32Serializer v =
     (case v of VNum d \<Rightarrow> isInteger d \<and> - (2 ^ 31) \<le> toInteger d \<and> toInteger d < 2 ^ 31 | _ \<Rightarrow> False)"
| "valid VarUInt64Serializer v = (case v of VBigInt n \<Rightarrow> 0 \<le> n \<and> n < 2 ^ 64 | _ \<Rightarrow> False)"
| "valid VarInt64Serializer v =
     (case v of VBigInt n \<Rightarrow> - (2 ^ 63) \<le> n \<and> n < 2 ^ 63 | _ \<Rightarrow> False)"
| "valid StringSerializer v = (case v of VStr s \<Rightarrow> length s < 2 ^ 32 | _ \<Rightarrow> False)"
| "valid (ArraySerializer elementSerializer) v =
     (case v of
        VArr items \<Rightarrow>
          length items < 2 ^ 32 \<and>
          (case elementSerializer of None \<Rightarrow> False | Some s \<Rightarrow> list_all (valid s) items)
      | _ \<Rightarrow> False)"
| "valid (ObjectSerializer schema) v =
     (case v of
        VObj props \<Rightarrow>
          distinct (map fst schema) \<and> protoKey \<notin> set (map fst schema) \<and>
          list_all2
            (\<lambda>field prop. fst prop = fst field \<and>
               (case snd field of None \<Rightarrow> False | Some s \<Rightarrow> valid s (snd prop)))
            schema props
      | _ \<Rightarrow> False)"
| "valid (TupleSerializer serializers) v =
     (case v of
        VArr items \<Rightarrow>
          list_all2
            (\<lambda>serializer item. case serializer of None \<Rightarrow> False | Some s \<Rightarrow> valid s item)
            serializers items
      | _ \<Rightarrow> False)"
| "valid (OptionalSerializer serializer) v = (v = VUndefined \<or> valid serializer v)"
| "valid (MapSerializer keySerializer valueSerializer) v =
     (case v of
        VMap entries \<Rightarrow>
          length entries < 2 ^ 32 \<and>
          list_all (\<lambda>entry. valid keySerializer (fst entry) \<and> valid valueSerializer (snd entry))
            entries \<and>
          distinctKeys (map fst entries)
      | _ \<Rightarrow> False)"
| "valid (SetSerializer elementSerializer) v =
     (case v of
        VSet items \<Rightarrow>
          length items < 2 ^ 32 \<and> list_all (valid elementSerializer) items \<and>
          distinctKeys items
      | _ \<Rightarrow> False)"

subsection \<open>src/net/encoding/Header.ts and src/net/messages/MessageEmitter.ts\<close>

record HeaderData =
  guid :: jsstring
  version :: jsstring
  index :: nat
  isFinal :: bool

text \<open>\<open>'mcbe-ipc:v3'\<close>\<close>

definition PROTOCOL_VERSION :: jsstring where
  "PROTOCOL_VERSION = [109, 99, 98, 101, 45, 105, 112, 99, 58, 118, 51]"

definition createHeader :: "jsstring \<Rightarrow> nat \<Rightarrow> bool \<Rightarrow> HeaderData" where
  "createHeader g i fin = \<lparr>guid = g, version = PROTOCOL_VERSION, index = i, isFinal = fin\<rparr>"

text \<open>What \<open>emit\<close> hands to the transport for a serialized payload, in the order of the
  calls of \<open>sendScriptEvent\<close>: the header of fragment \<open>i\<close> and the fragment.  The guid
  (random in the source) is a parameter.\<close>

definition emitFragments :: "jsstring \<Rightarrow> ByteBuffer \<Rightarrow> (HeaderData \<times> jsstring) list" where
  "emitFragments g payloadBuffer =
     (let frs = encode payloadBuffer MAX_FRAGMENT_SIZE
      in map (\<lambda>i. (createHeader g i (i = length frs - 1), frs ! i)) [0..<length frs])"

subsection \<open>src/net/messages/MessageListener.ts: the listener built by \<open>listen\<close>\<close>

text \<open>\<open>FragmentEntry\<close>, its fields \<open>size\<close>, \<open>fragments\<close> and \<open>received\<close> prefixed
  with \<open>entry\<close>: \<open>size\<close> is \<open>-1\<close> until the final fragment has been seen,
  \<open>fragments\<close> is a sparse array, \<open>received\<close> a set of indices.\<close>

record FragmentEntry =
  entrySize :: int
  entryFragments :: "nat \<rightharpoonup> jsstring"
  entryReceived :: "nat set"

text \<open>What one call of the listener did with the subscriber callback: it was not
  called, it was called with a value, or the listener threw before calling it.\<close>

datatype 'v outcome = NotCalled | Called 'v | Thrown error

text \<open>Lines 92-101: find or create the entry, record the final flag, store the
  fragment, mark the index.\<close>

definition updateEntry ::
  "(jsstring \<rightharpoonup> FragmentEntry) \<Rightarrow> HeaderData \<Rightarrow> jsstring \<Rightarrow> FragmentEntry" where
  "updateEntry fragmentBuffer header fragment =
     (let entry0 = (case fragmentBuffer (guid header) of
                      None \<Rightarrow> \<lparr>entrySize = -1, entryFragments = Map.empty, entryReceived = {}\<rparr>
                    | Some e \<Rightarrow> e);
          entry1 = (if isFinal header then entry0\<lparr>entrySize := int (index header) + 1\<rparr>
                    else entry0)
      in entry1\<lparr>entryFragments := (entryFragments entry1)(index header \<mapsto> fragment),
                entryReceived := insert (index header) (entryReceived entry1)\<rparr>)"

text \<open>Line 102, the completion test.\<close>

definition isComplete :: "FragmentEntry \<Rightarrow> bool" where
  "isComplete entry \<longleftrightarrow>
     entrySize entry \<noteq> -1 \<and> int (card (entryReceived entry)) = entrySize entry"

text \<open>Lines 104-110: \<open>!entry.fragments[i]\<close> holds for a hole and for the empty string.\<close>

fun collectLoop :: "(nat \<rightharpoonup> jsstring) \<Rightarrow> nat list \<Rightarrow> jsstring list \<Rightarrow> error + jsstring list" where
  "collectLoop frs [] fragmentsCopy = Inr fragmentsCopy"
| "collectLoop frs (i # rest) fragmentsCopy =
     (case frs i of
        None \<Rightarrow> Inl (MissingFragment i)
      | Some f \<Rightarrow> if f = [] then Inl (MissingFragment i)
                  else collectLoop frs rest (fragmentsCopy @ [f]))"

definition collectFragments :: "FragmentEntry \<Rightarrow> error + jsstring list" where
  "collectFragments entry =
     collectLoop (entryFragments entry) [0..<nat (entrySize entry)] []"

text \<open>The listener: the state is the \<open>fragmentBuffer\<close> map of the closure, the
  deserializer is the \<open>deserialize\<close> of the serializer given to \<open>listen\<close>.\<close>

definition listener ::
  "(ByteBuffer \<Rightarrow> error + 'v) \<Rightarrow> (jsstring \<rightharpoonup> FragmentEntry) \<Rightarrow> HeaderData \<Rightarrow> jsstring
     \<Rightarrow> (jsstring \<rightharpoonup> FragmentEntry) \<times> 'v outcome" where
  "listener deserializer fragmentBuffer header fragment =
     (let entry = updateEntry fragmentBuffer header fragment;
          fb1 = fragmentBuffer(guid header \<mapsto> entry)
      in if isComplete entry then
           (case collectFragments entry of
              Inl e \<Rightarrow> (fb1, Thrown e)
            | Inr fragmentsCopy \<Rightarrow>
                (let dataBuffer = decode fragmentsCopy;
                     fb2 = fb1(guid header := None)
                 in case deserializer dataBuffer of
                      Inl e \<Rightarrow> (fb2, Thrown e)
                    | Inr v \<Rightarrow> (fb2, Called v)))
         else (fb1, NotCalled))"

text \<open>Delivering a sequence of (header, fragment) pairs, one listener call each; a
  throw ends that call only.\<close>

fun deliverAll ::
  "(ByteBuffer \<Rightarrow> error + 'v) \<Rightarrow> (jsstring \<rightharpoonup> FragmentEntry) \<Rightarrow> (HeaderData \<times> jsstring) list
     \<Rightarrow> (jsstring \<rightharpoonup> FragmentEntry) \<times> 'v outcome list" where
  "deliverAll deserializer fb [] = (fb, [])"
| "deliverAll deserializer fb ((header, fragment) # rest) =
     (let (fb1, out) = listener deserializer fb header fragment;
          (fb2, outs) = deliverAll deserializer fb1 rest
      in (fb2, out # outs))"

text \<open>The accumulated cost of a fragment, read unit by unit as \<open>decode\<close> reads it: a
  pair of hexadecimal characters (a unit \<open>\<le> 0xFF\<close>) costs 2, any other code unit costs
  what \<open>encode\<close> charges for it.\<close>

fun fragmentCost :: "jsstring \<Rightarrow> nat" where
  "fragmentCost [] = 0"
| "fragmentCost [c] = (if uint c \<le> 0xFF then 2 else charSizeOf (uint c))"
| "fragmentCost (c # d # rest) =
     (if uint c \<le> 0xFF then 2 + fragmentCost rest
      else charSizeOf (uint c) + fragmentCost (d # rest))"

text \<open>Proof vocabulary for the encoder: the text \<open>encode\<close> appends for one pair of
  bytes, the buffers whose write cursor lies inside the array, and the buffer after
  writing a list of byte pairs.\<close>

definition unitText :: "byte \<times> byte \<Rightarrow> jsstring" where
  "unitText u =
     (let charCode = charCodeOf (fst u) (snd u)
      in if charCode > 0xFF then [fromCharCode charCode]
         else toUpperCase (padStart2 (toString16 charCode)))"

definition wfBuffer :: "ByteBuffer \<Rightarrow> bool" where
  "wfBuffer b \<longleftrightarrow> writePos b \<le> length (bytes b)"

fun writeUnits :: "(byte \<times> byte) list \<Rightarrow> ByteBuffer \<Rightarrow> ByteBuffer" where
  "writeUnits [] b = b"
| "writeUnits (u # us) b = writeUnits us (writeCharCode (charCodeOf (fst u) (snd u)) b)"

fun pairUp :: "byte list \<Rightarrow> (byte \<times> byte) list" where
  "pairUp [] = []"
| "pairUp [low] = [(low, 0)]"
| "pairUp (low # high # rest) = (low, high) # pairUp rest"

definition unitAligned :: "jsstring \<Rightarrow> bool" where
  "unitAligned s \<longleftrightarrow> (\<exists>us. s = concat (map unitText us))"

definition costInv :: "nat \<Rightarrow> encState \<Rightarrow> bool" where
  "costInv m st \<longleftrightarrow>
     unitAligned (currentFragment st) \<and>
     currentSize st = fragmentCost (currentFragment st) \<and>
     currentSize st \<le> m \<and>
     list_all (\<lambda>f. fragmentCost f \<le> m \<and> f \<noteq> []) (fragments st)"

text \<open>Proof vocabulary for the serializers: the unread bytes of a buffer, a buffer
  after \<open>n\<close> more bytes have been read, a writer that appends the bytes \<open>bs\<close> to every
  well-formed buffer, a reader that, on unread bytes starting with \<open>bs\<close>, returns \<open>x\<close>
  having consumed exactly \<open>bs\<close>, and a reader that throws whenever the unread bytes are
  \<open>bs\<close> cut short.\<close>

definition unread :: "ByteBuffer \<Rightarrow> byte list" where
  "unread b = drop (readPos b) (toUint8Array b)"

definition consumed :: "nat \<Rightarrow> ByteBuffer \<Rightarrow> ByteBuffer" where
  "consumed n b = b\<lparr>readPos := readPos b + n\<rparr>"

definition readable :: "ByteBuffer \<Rightarrow> bool" where
  "readable b \<longleftrightarrow> wfBuffer b \<and> readPos b \<le> writePos b"

definition appends :: "(ByteBuffer \<Rightarrow> error + ByteBuffer) \<Rightarrow> byte list \<Rightarrow> bool" where
  "appends w bs \<longleftrightarrow>
     (\<forall>b. wfBuffer b \<longrightarrow>
        (\<exists>b1. w b = Inr b1 \<and> wfBuffer b1 \<and> readPos b1 = readPos b \<and>
              toUint8Array b1 = toUint8Array b @ bs))"

definition reads :: "(ByteBuffer \<Rightarrow> error + ('a \<times> ByteBuffer)) \<Rightarrow> byte list \<Rightarrow> 'a \<Rightarrow> bool" where
  "reads r bs x \<longleftrightarrow>
     (\<forall>b rest. readable b \<and> unread b = bs @ rest \<longrightarrow> r b = Inr (x, consumed (length bs) b))"

definition failsShort :: "(ByteBuffer \<Rightarrow> error + ('a \<times> ByteBuffer)) \<Rightarrow> byte list \<Rightarrow> bool" where
  "failsShort r bs \<longleftrightarrow>
     (\<forall>b q. readable b \<and> q \<noteq> [] \<and> unread b @ q = bs \<longrightarrow> (\<exists>e. r b = Inl e))"

definition bindR ::
  "(ByteBuffer \<Rightarrow> error + ('a \<times> ByteBuffer)) \<Rightarrow> ('a \<Rightarrow> ByteBuffer \<Rightarrow> error + ('b \<times> ByteBuffer))
     \<Rightarrow> ByteBuffer \<Rightarrow> error + ('b \<times> ByteBuffer)" where
  "bindR r k b = (case r b of Inl e \<Rightarrow> Inl e | Inr (x, b1) \<Rightarrow> k x b1)"

definition bindW ::
  "(ByteBuffer \<Rightarrow> error + ByteBuffer) \<Rightarrow> (ByteBuffer \<Rightarrow> error + ByteBuffer)
     \<Rightarrow> ByteBuffer \<Rightarrow> error + ByteBuffer" where
  "bindW w1 w2 b = (case w1 b of Inl e \<Rightarrow> Inl e | Inr b1 \<Rightarrow> w2 b1)"

definition codec ::
  "(ByteBuffer \<Rightarrow> error + ByteBuffer) \<Rightarrow> (ByteBuffer \<Rightarrow> error + ('a \<times> ByteBuffer)) \<Rightarrow> 'a \<Rightarrow> bool" where
  "codec w r x \<longleftrightarrow> (\<exists>bs. appends w bs \<and> reads r bs x \<and> failsShort r bs)"

text \<open>Two pairs that denote the same magnitude, one a rescaling of the other.\<close>

definition scaled :: "int \<Rightarrow> int \<Rightarrow> int \<Rightarrow> int \<Rightarrow> bool" where
  "scaled M E M' E' \<longleftrightarrow>
     (\<exists>k. M' = M * 2 ^ k \<and> E' = E - int k) \<or> (\<exists>k. M = M' * 2 ^ k \<and> E = E' - int k)"

definition padEven :: "byte list \<Rightarrow> byte list" where
  "padEven bs = (if odd (length bs) then bs @ [0] else bs)"


section \<open>Properties\<close>

declare toString16.simps [simp del]
declare bitLength.simps [simp del]
declare varUInt32Loop.simps [simp del] varUInt64Loop.simps [simp del]
declare varUInt32Read.simps [simp del] varUInt64Read.simps [simp del]

lemma int255_mask: "(255::int) = mask 8"
  by (simp add: mask_eq_exp_minus_1)

lemma bit_byte_less: "bit (l::byte) n \<Longrightarrow> n < 8"
  using bit_imp_le_length[of l n] by simp

lemma charCode_low: "charCodeOf l h AND 0xFF = uint l"
  unfolding int255_mask charCodeOf_def
  by (rule bit_eqI) (auto simp: bit_simps dest: bit_byte_less)

lemma charCode_high: "drop_bit 8 (charCodeOf l h) = uint h"
  unfolding charCodeOf_def
  by (rule bit_eqI) (auto simp: bit_simps dest: bit_byte_less)

lemma charCode_sum: "charCodeOf l h = uint l + 256 * uint h"
proof -
  have "uint l OR push_bit 8 (uint h) = uint l + push_bit 8 (uint h)"
    by (rule disjunctive_add[symmetric]) (auto simp: bit_simps dest: bit_byte_less)
  then show ?thesis by (simp add: push_bit_eq_mult charCodeOf_def)
qed

lemma charCode_range: "0 \<le> charCodeOf l h \<and> charCodeOf l h < 65536"
proof -
  have "uint l < 256" "uint h < 256" using uint_lt2p[of l] uint_lt2p[of h] by simp_all
  then show ?thesis by (simp add: charCode_sum)
qed

lemma word_of_int_and255: "(word_of_int (k AND 0xFF) :: byte) = word_of_int k"
  unfolding int255_mask
  by (rule bit_eqI) (auto simp: bit_simps dest: bit_byte_less)

subsection \<open>Writing bytes\<close>

lemma wfBuffer_new: "wfBuffer (newByteBuffer n)"
  by (simp add: wfBuffer_def newByteBuffer_def)

lemma wfBuffer_writeByte: "wfBuffer b \<Longrightarrow> wfBuffer (writeByte v b)"
  by (auto simp: wfBuffer_def writeByte_def allocate_def ensureCapacity_def Let_def)

lemma toUint8Array_writeByte:
  "wfBuffer b \<Longrightarrow> toUint8Array (writeByte v b) = toUint8Array b @ [word_of_int v]"
  by (auto simp: wfBuffer_def writeByte_def allocate_def ensureCapacity_def Let_def
      toUint8Array_def word_of_int_and255 take_Suc_conv_app_nth)

lemma writePos_writeByte: "writePos (writeByte v b) = writePos b + 1"
  by (simp add: writeByte_def allocate_def ensureCapacity_def Let_def)

lemma readPos_writeByte: "readPos (writeByte v b) = readPos b"
  by (auto simp: writeByte_def allocate_def ensureCapacity_def Let_def)

lemma wfBuffer_writeCharCode: "wfBuffer b \<Longrightarrow> wfBuffer (writeCharCode c b)"
  by (simp add: writeCharCode_def wfBuffer_writeByte)

lemma toUint8Array_writeCharCode:
  "wfBuffer b \<Longrightarrow>
   toUint8Array (writeCharCode (charCodeOf l h) b) = toUint8Array b @ [l, h]"
  by (simp add: writeCharCode_def toUint8Array_writeByte wfBuffer_writeByte
      charCode_low charCode_high)

subsection \<open>Hexadecimal text\<close>

lemma digit_cases:
  assumes "0 \<le> (d::int)" "d < 16"
    and "P 0" "P 1" "P 2" "P 3" "P 4" "P 5" "P 6" "P 7"
    and "P 8" "P 9" "P 10" "P 11" "P 12" "P 13" "P 14" "P 15"
  shows "P d"
proof -
  from assms(1,2) have "d = 0 \<or> d = 1 \<or> d = 2 \<or> d = 3 \<or> d = 4 \<or> d = 5 \<or> d = 6 \<or> d = 7 \<or>
      d = 8 \<or> d = 9 \<or> d = 10 \<or> d = 11 \<or> d = 12 \<or> d = 13 \<or> d = 14 \<or> d = 15"
    by arith
  with assms(3-) show ?thesis by blast
qed

lemma upper_digit_props:
  assumes "0 \<le> d" "d < 16"
  shows "hexDigitValue (hd (toUpperCase [hexDigitChar d])) = Some d"
    and "\<not> isStrWhiteSpace (hd (toUpperCase [hexDigitChar d]))"
    and "hd (toUpperCase [hexDigitChar d]) \<noteq> 43"
    and "hd (toUpperCase [hexDigitChar d]) \<noteq> 45"
    and "hd (toUpperCase [hexDigitChar d]) \<noteq> 120"
    and "hd (toUpperCase [hexDigitChar d]) \<noteq> 88"
    and "uint (hd (toUpperCase [hexDigitChar d])) \<le> 0xFF"
  by (rule digit_cases[OF assms],
      simp_all add: hexDigitValue_def toUpperCase_def hexDigitChar_def isStrWhiteSpace_def)+

lemma toString16_two:
  assumes "0 \<le> v" "v < 256"
  shows "toUpperCase (padStart2 (toString16 v)) =
         [hd (toUpperCase [hexDigitChar (v div 16)]), hd (toUpperCase [hexDigitChar (v mod 16)])]"
proof (cases "v < 16")
  case True
  then have "v div 16 = 0" "v mod 16 = v" using assms by simp_all
  then show ?thesis using True
    by (simp add: toString16.simps[of v] padStart2_def toUpperCase_def hexDigitChar_def)
next
  case False
  then have "v div 16 < 16" using assms by simp
  then show ?thesis using False
    by (simp add: toString16.simps[of v] toString16.simps[of "v div 16"]
        padStart2_def toUpperCase_def)
qed

lemma parseInt16_two:
  assumes "0 \<le> a" "a < 16" "0 \<le> b" "b < 16"
  shows "parseInt16 [hd (toUpperCase [hexDigitChar a]), hd (toUpperCase [hexDigitChar b])]
         = Some (a * 16 + b)"
  using upper_digit_props[OF assms(1,2)] upper_digit_props[OF assms(3,4)]
  by (simp add: parseInt16_def)

lemma hexText_decodes:
  assumes "0 \<le> v" "v < 256"
  shows "\<exists>a b. toUpperCase (padStart2 (toString16 v)) = [a, b] \<and> uint a \<le> 0xFF \<and>
           writeHexPair [a, b] buf = writeCharCode v buf"
proof -
  let ?a = "hd (toUpperCase [hexDigitChar (v div 16)])"
  let ?b = "hd (toUpperCase [hexDigitChar (v mod 16)])"
  have d: "0 \<le> v div 16" "v div 16 < 16" "0 \<le> v mod 16" "v mod 16 < 16"
    using assms by simp_all
  have "parseInt16 [?a, ?b] = Some v"
    using parseInt16_two[OF d] by simp
  then have "writeHexPair [?a, ?b] buf = writeCharCode v buf"
    by (simp add: writeHexPair_def writeCharCode_def toInt32_def)
  then show ?thesis
    using toString16_two[OF assms] upper_digit_props(7)[OF d(1,2)] by blast
qed

subsection \<open>Decoding the text of one unit\<close>

lemma decodeFragment_direct:
  assumes "uint c > 0xFF"
  shows "decodeFragment (c # rest) buf = decodeFragment rest (writeCharCode (uint c) buf)"
  using assms by (cases rest) simp_all

lemma fragmentCost_direct:
  assumes "uint c > 0xFF"
  shows "fragmentCost (c # rest) = charSizeOf (uint c) + fragmentCost rest"
  using assms by (cases rest) simp_all

lemma uint_fromCharCode: "0 \<le> n \<Longrightarrow> n < 65536 \<Longrightarrow> uint (fromCharCode n) = n"
  by (simp add: fromCharCode_def uint_word_of_int take_bit_eq_mod)

lemma decodeFragment_unitText:
  "decodeFragment (unitText u @ rest) buf =
   decodeFragment rest (writeCharCode (charCodeOf (fst u) (snd u)) buf)"
proof (cases "charCodeOf (fst u) (snd u) > 0xFF")
  case True
  then show ?thesis
    using charCode_range[of "fst u" "snd u"]
    by (simp add: unitText_def decodeFragment_direct uint_fromCharCode)
next
  case False
  then have r: "0 \<le> charCodeOf (fst u) (snd u)" "charCodeOf (fst u) (snd u) < 256"
    using charCode_range[of "fst u" "snd u"] by simp_all
  obtain a b where ab: "toUpperCase (padStart2 (toString16 (charCodeOf (fst u) (snd u)))) = [a, b]"
    "uint a \<le> 0xFF"
    "writeHexPair [a, b] buf = writeCharCode (charCodeOf (fst u) (snd u)) buf"
    using hexText_decodes[OF r, of buf] by blast
  then show ?thesis using False by (simp add: unitText_def)
qed

lemma fragmentCost_unitText:
  "fragmentCost (unitText u @ rest) = charSizeOf (charCodeOf (fst u) (snd u)) + fragmentCost rest"
proof (cases "charCodeOf (fst u) (snd u) > 0xFF")
  case True
  then show ?thesis
    using charCode_range[of "fst u" "snd u"]
    by (simp add: unitText_def fragmentCost_direct uint_fromCharCode)
next
  case False
  then have r: "0 \<le> charCodeOf (fst u) (snd u)" "charCodeOf (fst u) (snd u) < 256"
    using charCode_range[of "fst u" "snd u"] by simp_all
  obtain a b where ab: "toUpperCase (padStart2 (toString16 (charCodeOf (fst u) (snd u)))) = [a, b]"
    "uint a \<le> 0xFF"
    using hexText_decodes[OF r, of undefined] by blast
  then show ?thesis using False by (simp add: unitText_def charSizeOf_def)
qed

lemma decodeFragment_units:
  "decodeFragment (concat (map unitText us) @ rest) buf = decodeFragment rest (writeUnits us buf)"
  by (induction us arbitrary: buf) (simp_all add: decodeFragment_unitText)

lemma fragmentCost_units:
  "fragmentCost (concat (map unitText us) @ rest) =
   sum_list (map (\<lambda>u. charSizeOf (charCodeOf (fst u) (snd u))) us) + fragmentCost rest"
  by (induction us) (simp_all add: fragmentCost_unitText)

lemma wfBuffer_writeUnits: "wfBuffer b \<Longrightarrow> wfBuffer (writeUnits us b)"
  by (induction us arbitrary: b) (simp_all add: wfBuffer_writeCharCode)

lemma toUint8Array_writeUnits:
  "wfBuffer b \<Longrightarrow>
   toUint8Array (writeUnits us b) = toUint8Array b @ concat (map (\<lambda>u. [fst u, snd u]) us)"
  by (induction us arbitrary: b)
     (simp_all add: wfBuffer_writeCharCode toUint8Array_writeCharCode)

lemma decodeLoop_snoc:
  "decodeLoop (frs @ [f]) buf = decodeFragment f (decodeLoop frs buf)"
  by (induction frs arbitrary: buf) auto

lemma encodeStep_unitText:
  "encodeStep m l h st =
     (if currentSize st + charSizeOf (charCodeOf l h) > m
      then \<lparr>fragments = fragments st @ [currentFragment st],
            currentFragment = unitText (l, h),
            currentSize = charSizeOf (charCodeOf l h)\<rparr>
      else \<lparr>fragments = fragments st,
            currentFragment = currentFragment st @ unitText (l, h),
            currentSize = currentSize st + charSizeOf (charCodeOf l h)\<rparr>)"
  by (simp add: encodeStep_def unitText_def Let_def charSizeOf_def)

subsection \<open>The encoder loop\<close>

lemma unitAligned_Nil: "unitAligned []"
  unfolding unitAligned_def by (rule exI[of _ "[]"]) simp

lemma unitAligned_snoc: "unitAligned s \<Longrightarrow> unitAligned (s @ unitText u)"
proof -
  assume "unitAligned s"
  then obtain us where "s = concat (map unitText us)" unfolding unitAligned_def by blast
  then have "s @ unitText u = concat (map unitText (us @ [u]))" by simp
  then show ?thesis unfolding unitAligned_def by blast
qed

lemma unitAligned_unit: "unitAligned (unitText u)"
  using unitAligned_snoc[OF unitAligned_Nil, of u] by simp

lemma decodeFragment_aligned_append:
  assumes "unitAligned s"
  shows "decodeFragment (s @ t) buf = decodeFragment t (decodeFragment s buf)"
proof -
  from assms obtain us where s: "s = concat (map unitText us)" unfolding unitAligned_def by blast
  have "decodeFragment s buf = writeUnits us buf"
    using decodeFragment_units[of us "[]" buf] s by simp
  then show ?thesis using decodeFragment_units[of us t buf] s by simp
qed

lemma fragmentCost_aligned_append:
  assumes "unitAligned s"
  shows "fragmentCost (s @ t) = fragmentCost s + fragmentCost t"
proof -
  from assms obtain us where s: "s = concat (map unitText us)" unfolding unitAligned_def by blast
  show ?thesis using fragmentCost_units[of us t] fragmentCost_units[of us "[]"] s by simp
qed

lemma fragmentCost_one: "fragmentCost (unitText u) = charSizeOf (charCodeOf (fst u) (snd u))"
  using fragmentCost_unitText[of u "[]"] by simp

lemma decodeFragment_one:
  "decodeFragment (unitText u) buf = writeCharCode (charCodeOf (fst u) (snd u)) buf"
  using decodeFragment_unitText[of u "[]" buf] by simp

lemma encodeStep_aligned:
  "unitAligned (currentFragment st) \<Longrightarrow> unitAligned (currentFragment (encodeStep m l h st))"
  by (simp add: encodeStep_unitText unitAligned_snoc unitAligned_unit)

lemma encodeStep_decode:
  assumes "unitAligned (currentFragment st)"
  shows "decodeLoop (fragments (encodeStep m l h st) @ [currentFragment (encodeStep m l h st)]) buf
         = writeCharCode (charCodeOf l h) (decodeLoop (fragments st @ [currentFragment st]) buf)"
  using assms
  by (simp add: encodeStep_unitText decodeLoop_snoc decodeFragment_one
      decodeFragment_aligned_append)

lemma encodeLoop_aligned:
  "unitAligned (currentFragment st) \<Longrightarrow> unitAligned (currentFragment (encodeLoop m bs st))"
  by (induction m bs st rule: encodeLoop.induct) (simp_all add: encodeStep_aligned)

lemma encodeLoop_decode:
  "unitAligned (currentFragment st) \<Longrightarrow>
   decodeLoop (fragments (encodeLoop m bs st) @ [currentFragment (encodeLoop m bs st)]) buf
   = writeUnits (pairUp bs) (decodeLoop (fragments st @ [currentFragment st]) buf)"
  by (induction m bs st rule: encodeLoop.induct)
     (simp_all add: encodeStep_aligned encodeStep_decode)

lemma pairUp_bytes: "concat (map (\<lambda>u. [fst u, snd u]) (pairUp bs)) = padEven bs"
  by (induction bs rule: pairUp.induct) (simp_all add: padEven_def)

lemma decodeLoop_encode:
  "decodeLoop (encode buffer m) buf = writeUnits (pairUp (toUint8Array buffer)) buf"
proof -
  let ?init = "\<lparr>fragments = [], currentFragment = [], currentSize = 0\<rparr>"
  let ?st = "encodeLoop m (toUint8Array buffer) ?init"
  have a: "unitAligned (currentFragment ?init)" by (simp add: unitAligned_Nil)
  have full: "decodeLoop (fragments ?st @ [currentFragment ?st]) buf
        = writeUnits (pairUp (toUint8Array buffer)) buf"
    using encodeLoop_decode[OF a, of m "toUint8Array buffer" buf] by simp
  show ?thesis
  proof (cases "currentFragment ?st \<noteq> [] \<or> length (fragments ?st) = 0")
    case True
    then show ?thesis using full by (simp add: encode_def Let_def)
  next
    case False
    then have "decodeLoop (fragments ?st) buf = decodeLoop (fragments ?st @ [currentFragment ?st]) buf"
      by (simp add: decodeLoop_snoc)
    then show ?thesis using full False by (simp add: encode_def Let_def)
  qed
qed

lemma toUint8Array_decode:
  "toUint8Array (decode frs) = toUint8Array (decodeLoop frs (newByteBuffer 256))"
  by (cases frs) (simp_all add: decode_def Let_def resetRead_def toUint8Array_def)

lemma decode_encode_padEven:
  "toUint8Array (decode (encode buffer m)) = padEven (toUint8Array buffer)"
  by (simp add: toUint8Array_decode decodeLoop_encode toUint8Array_writeUnits wfBuffer_new
      pairUp_bytes) (simp add: toUint8Array_def newByteBuffer_def)

subsection \<open>Costs\<close>

lemma charSizeOf_le3: "charSizeOf c \<le> 3"
  by (simp add: charSizeOf_def)

lemma encodeStep_costInv:
  assumes "3 \<le> m" "costInv m st"
  shows "costInv m (encodeStep m l h st)"
  using assms charSizeOf_le3[of "charCodeOf l h"]
  by (auto simp: costInv_def encodeStep_unitText unitAligned_snoc unitAligned_unit
      fragmentCost_aligned_append fragmentCost_one)

lemma encodeLoop_costInv:
  "3 \<le> m \<Longrightarrow> costInv m st \<Longrightarrow> costInv m (encodeLoop m bs st)"
  by (induction m bs st rule: encodeLoop.induct) (simp_all add: encodeStep_costInv)

lemma fragmentCost_pos: "f \<noteq> [] \<Longrightarrow> 0 < fragmentCost f"
  by (induction f rule: fragmentCost.induct) (simp_all add: charSizeOf_def)

lemma encode_nonempty:
  assumes "3 \<le> m"
  shows "encode buffer m = [[]] \<or> list_all (\<lambda>f. f \<noteq> []) (encode buffer m)"
proof -
  let ?init = "\<lparr>fragments = [], currentFragment = [], currentSize = 0\<rparr>"
  have "costInv m ?init" by (simp add: costInv_def unitAligned_Nil)
  then have "costInv m (encodeLoop m (toUint8Array buffer) ?init)"
    using assms by (rule encodeLoop_costInv[rotated])
  then show ?thesis
    by (auto simp: encode_def Let_def costInv_def list_all_iff)
qed

lemma encode_cost_inv:
  assumes "3 \<le> m"
  shows "list_all (\<lambda>f. fragmentCost f \<le> m) (encode buffer m)"
proof -
  let ?init = "\<lparr>fragments = [], currentFragment = [], currentSize = 0\<rparr>"
  have "costInv m ?init" by (simp add: costInv_def unitAligned_Nil)
  then have "costInv m (encodeLoop m (toUint8Array buffer) ?init)"
    using assms by (rule encodeLoop_costInv[rotated])
  then show ?thesis
    by (auto simp: encode_def Let_def costInv_def list_all_iff)
qed

subsection \<open>The reassembly listener\<close>

lemma upt_0_3: "[0..<3] = [0, 1, 2]"
  by code_simp

lemma reassemble_any_order:
  assumes "fb g = None" "f0 \<noteq> []" "f1 \<noteq> []" "f2 \<noteq> []"
    and "deserializer (decode [f0, f1, f2]) = Inr v"
  shows "snd (deliverAll deserializer fb
            [(createHeader g 2 True, f2), (createHeader g 0 False, f0), (createHeader g 1 False, f1)])
         = [NotCalled, NotCalled, Called v]"
    and "snd (deliverAll deserializer fb
            [(createHeader g 0 False, f0), (createHeader g 1 False, f1), (createHeader g 2 True, f2)])
         = [NotCalled, NotCalled, Called v]"
  using assms
  by (simp_all add: listener_def updateEntry_def isComplete_def collectFragments_def
      createHeader_def Let_def upt_0_3)

lemma collectLoop_first_missing:
  assumes "\<forall>k \<in> set xs. frs k \<noteq> None \<and> frs k \<noteq> Some []"
    and "frs i = None \<or> frs i = Some []"
  shows "collectLoop frs (xs @ i # ys) acc = Inl (MissingFragment i)"
  using assms by (induction xs arbitrary: acc) auto

lemma collectLoop_some_missing:
  assumes "i \<in> set xs" "frs i = None \<or> frs i = Some []"
  shows "\<exists>j \<in> set xs. collectLoop frs xs acc = Inl (MissingFragment j) \<and>
           (frs j = None \<or> frs j = Some [])"
  using assms
proof (induction xs arbitrary: acc)
  case Nil
  then show ?case by simp
next
  case (Cons a xs)
  show ?case
  proof (cases "frs a = None \<or> frs a = Some []")
    case True
    then show ?thesis by auto
  next
    case False
    then have "i \<in> set xs" using Cons.prems by auto
    from Cons.IH[OF this Cons.prems(2)] False show ?thesis by auto
  qed
qed

lemma upt_split: "i < n \<Longrightarrow> [0..<n] = [0..<i] @ i # [Suc i..<n]"
  by (metis upt_conv_Cons upt_add_eq_append le0 add_0 less_imp_le_nat le_add_diff_inverse)

lemma listener_Called_complete:
  "snd (listener d fb h f) = Called v \<Longrightarrow> isComplete (updateEntry fb h f)"
  by (auto simp: listener_def Let_def split: if_splits sum.splits)

lemma listener_first_missing:
  assumes "isComplete (updateEntry fb h f)"
    and "i < nat (entrySize (updateEntry fb h f))"
    and "entryFragments (updateEntry fb h f) i = None \<or> entryFragments (updateEntry fb h f) i = Some []"
    and "\<forall>k<i. entryFragments (updateEntry fb h f) k \<noteq> None \<and> entryFragments (updateEntry fb h f) k \<noteq> Some []"
  shows "listener d fb h f = (fb(guid h \<mapsto> updateEntry fb h f), Thrown (MissingFragment i))"
proof -
  have "collectFragments (updateEntry fb h f) = Inl (MissingFragment i)"
    unfolding collectFragments_def upt_split[OF assms(2)]
    by (rule collectLoop_first_missing) (use assms(3,4) in auto)
  then show ?thesis using assms(1) by (simp add: listener_def Let_def)
qed

lemma listener_some_missing:
  assumes "isComplete (updateEntry fb h f)"
    and "i < nat (entrySize (updateEntry fb h f))"
    and "entryFragments (updateEntry fb h f) i = None \<or> entryFragments (updateEntry fb h f) i = Some []"
  shows "\<exists>j\<le>i. listener d fb h f = (fb(guid h \<mapsto> updateEntry fb h f), Thrown (MissingFragment j))"
proof -
  let ?e = "updateEntry fb h f"
  let ?bad = "\<lambda>k. entryFragments ?e k = None \<or> entryFragments ?e k = Some []"
  define j where "j = (LEAST k. ?bad k)"
  have bj: "?bad j" unfolding j_def using assms(3) by (rule LeastI)
  have le: "j \<le> i" unfolding j_def using assms(3) by (rule Least_le)
  have "\<forall>k<j. \<not> ?bad k" unfolding j_def using not_less_Least by blast
  then have "listener d fb h f = (fb(guid h \<mapsto> ?e), Thrown (MissingFragment j))"
    using listener_first_missing[OF assms(1) _ bj, of d] le assms(2) by auto
  then show ?thesis using le by blast
qed

lemma listener_empty_final:
  "snd (listener d fb (createHeader g 0 True) []) = NotCalled \<or>
   snd (listener d fb (createHeader g 0 True) []) = Thrown (MissingFragment 0)"
  by (simp add: listener_def Let_def collectFragments_def updateEntry_def createHeader_def
      split: option.splits)

lemma listener_empty_final_fresh:
  "fb g = None \<Longrightarrow>
   snd (listener d fb (createHeader g 0 True) []) = Thrown (MissingFragment 0)"
  by (simp add: listener_def Let_def collectFragments_def updateEntry_def createHeader_def
      isComplete_def)

lemma emitFragments_empty:
  "writePos payload = 0 \<Longrightarrow> emitFragments g payload = [(createHeader g 0 True, [])]"
  by (simp add: emitFragments_def encode_def toUint8Array_def)


section \<open>Serializers\<close>

subsection \<open>Generic facts\<close>

lemma readable_consumed:
  assumes "readable b" "unread b = bs @ rest"
  shows "readable (consumed (length bs) b)" "unread (consumed (length bs) b) = rest"
proof -
  have l: "length (unread b) = writePos b - readPos b"
    using assms(1) by (simp add: unread_def toUint8Array_def readable_def wfBuffer_def)
  then have "length bs \<le> writePos b - readPos b" using assms(2) by simp
  then show "readable (consumed (length bs) b)"
    using assms(1) by (auto simp: readable_def consumed_def wfBuffer_def)
  have "unread (consumed (length bs) b) = drop (length bs) (unread b)"
    by (simp add: unread_def consumed_def toUint8Array_def add.commute)
  then show "unread (consumed (length bs) b) = rest" using assms(2) by simp
qed

lemma consumed_consumed: "consumed m (consumed n b) = consumed (n + m) b"
  by (simp add: consumed_def add.assoc)

lemma consumed_0: "consumed 0 b = b"
  by (simp add: consumed_def)

lemma appends_bindW:
  assumes "appends w1 bs1" "appends w2 bs2"
  shows "appends (bindW w1 w2) (bs1 @ bs2)"
  unfolding appends_def
proof (intro allI impI)
  fix b assume "wfBuffer b"
  then obtain b1 where 1: "w1 b = Inr b1" "wfBuffer b1" "readPos b1 = readPos b"
    "toUint8Array b1 = toUint8Array b @ bs1"
    using assms(1) unfolding appends_def by blast
  then obtain b2 where 2: "w2 b1 = Inr b2" "wfBuffer b2" "readPos b2 = readPos b1"
    "toUint8Array b2 = toUint8Array b1 @ bs2"
    using assms(2) unfolding appends_def by blast
  show "\<exists>b1. bindW w1 w2 b = Inr b1 \<and> wfBuffer b1 \<and> readPos b1 = readPos b \<and>
         toUint8Array b1 = toUint8Array b @ bs1 @ bs2"
    using 1 2 by (simp add: bindW_def)
qed

lemma appends_Inr_id: "appends Inr []"
  by (simp add: appends_def)

lemma reads_return: "reads (\<lambda>b. Inr (x, b)) [] x"
  by (simp add: reads_def consumed_0)

lemma failsShort_Nil: "failsShort r []"
  by (simp add: failsShort_def)

lemma split_short:
  assumes "xs @ q = bs @ cs" "length xs < length bs"
  shows "\<exists>q1. q1 \<noteq> [] \<and> xs @ q1 = bs"
  using assms by (auto simp: append_eq_append_conv2)

lemma split_long:
  assumes "xs @ q = bs @ cs" "\<not> length xs < length bs"
  shows "\<exists>p2. xs = bs @ p2 \<and> p2 @ q = cs"
  using assms by (auto simp: append_eq_append_conv2)

lemma reads_bindR:
  assumes "reads r bs x" "reads (k x) cs y"
  shows "reads (bindR r k) (bs @ cs) y"
  unfolding reads_def
proof (intro allI impI)
  fix b rest assume a: "readable b \<and> unread b = (bs @ cs) @ rest"
  then have 1: "r b = Inr (x, consumed (length bs) b)"
    using assms(1) unfolding reads_def by simp
  have 2: "readable (consumed (length bs) b)" "unread (consumed (length bs) b) = cs @ rest"
    using readable_consumed[of b bs "cs @ rest"] a by simp_all
  then have "k x (consumed (length bs) b) = Inr (y, consumed (length cs) (consumed (length bs) b))"
    using assms(2) unfolding reads_def by blast
  then show "bindR r k b = Inr (y, consumed (length (bs @ cs)) b)"
    using 1 by (simp add: bindR_def consumed_consumed)
qed

lemma failsShort_bindR:
  assumes "reads r bs x" "failsShort r bs" "failsShort (k x) cs"
  shows "failsShort (bindR r k) (bs @ cs)"
  unfolding failsShort_def
proof (intro allI impI)
  fix b q assume a: "readable b \<and> q \<noteq> [] \<and> unread b @ q = bs @ cs"
  show "\<exists>e. bindR r k b = Inl e"
  proof (cases "length (unread b) < length bs")
    case True
    then obtain q1 where "q1 \<noteq> []" "unread b @ q1 = bs"
      using split_short[of "unread b" q bs cs] a by blast
    then obtain e where "r b = Inl e"
      using assms(2) a unfolding failsShort_def by blast
    then show ?thesis by (simp add: bindR_def)
  next
    case False
    then obtain p2 where p2: "unread b = bs @ p2" "p2 @ q = cs"
      using split_long[of "unread b" q bs cs] a by blast
    then have 1: "r b = Inr (x, consumed (length bs) b)"
      using assms(1) a unfolding reads_def by blast
    have 2: "readable (consumed (length bs) b)" "unread (consumed (length bs) b) = p2"
      using readable_consumed[of b bs p2] a p2 by simp_all
    then obtain e where "k x (consumed (length bs) b) = Inl e"
      using assms(3) a p2 unfolding failsShort_def by blast
    then show ?thesis using 1 by (simp add: bindR_def)
  qed
qed

subsection \<open>Reading and writing bytes\<close>

lemma unread_length: "readable b \<Longrightarrow> length (unread b) = writePos b - readPos b"
  by (simp add: unread_def toUint8Array_def readable_def wfBuffer_def)

lemma unread_nth:
  assumes "readable b" "unread b = bs @ rest" "i < length bs"
  shows "readPos b + i < length (bytes b)" "bytes b ! (readPos b + i) = bs ! i"
proof -
  have l: "length bs \<le> writePos b - readPos b"
    using unread_length[OF assms(1)] assms(2) by simp
  then show "readPos b + i < length (bytes b)"
    using assms(1,3) by (auto simp: readable_def wfBuffer_def)
  have "unread b ! i = bytes b ! (readPos b + i)"
    using l assms(1,3) by (simp add: unread_def toUint8Array_def readable_def wfBuffer_def)
  then show "bytes b ! (readPos b + i) = bs ! i"
    using assms(2,3) by (simp add: nth_append)
qed

lemma unread_take:
  assumes "readable b" "unread b = bs @ rest"
  shows "take (length bs) (drop (readPos b) (bytes b)) = bs"
    and "readPos b + length bs \<le> length (bytes b)"
    and "int (length bs) \<le> available b"
proof -
  have l: "length bs \<le> writePos b - readPos b"
    using unread_length[OF assms(1)] assms(2) by simp
  then show "readPos b + length bs \<le> length (bytes b)"
    using assms(1) by (auto simp: readable_def wfBuffer_def)
  show "int (length bs) \<le> available b"
    using l assms(1) by (auto simp: readable_def available_def)
  have "length bs + readPos b \<le> writePos b"
    using l assms(1) by (auto simp: readable_def)
  then have "take (length bs) (unread b) = take (length bs) (drop (readPos b) (bytes b))"
    by (simp add: unread_def toUint8Array_def take_drop min_def)
  then show "take (length bs) (drop (readPos b) (bytes b)) = bs"
    using assms(2) by simp
qed

lemma readByte_reads:
  assumes "readable b" "unread b = x # rest"
  shows "readByte b = Inr (Some (uint x), consumed 1 b)"
proof -
  have u: "unread b = [x] @ rest" using assms(2) by simp
  have "readPos b < length (bytes b)" "bytes b ! readPos b = x"
    using unread_nth[OF assms(1) u, of 0] by simp_all
  moreover have "int 1 \<le> available b"
    using unread_take(3)[OF assms(1) u] by simp
  ultimately show ?thesis
    by (simp add: readByte_def advance_def consumed_def)
qed

lemma readByte_underflow:
  assumes "readable b" "unread b = []"
  shows "readByte b = Inl (BufferUnderflow 1 0)" "available b = 0"
proof -
  have "writePos b - readPos b = 0" using unread_length[OF assms(1)] assms(2) by simp
  then show "available b = 0" using assms(1) by (simp add: readable_def available_def)
  then show "readByte b = Inl (BufferUnderflow 1 0)"
    by (simp add: readByte_def advance_def)
qed

lemma length_bytesBE: "length (bytesBE n v) = n"
  by (induction n arbitrary: v) simp_all

lemma loadBE_reads:
  assumes "readable b" "unread b = bs @ rest" "length bs = n"
  shows "loadBE n b = Inr (uintBE bs, consumed n b)"
  using unread_take[OF assms(1,2)] assms(3)
  by (auto simp: loadBE_def advance_def consumed_def)

lemma loadBE_underflow:
  assumes "readable b" "length (unread b) < n"
  shows "\<exists>e. loadBE n b = Inl e"
proof -
  have "available b < int n"
    using unread_length[OF assms(1)] assms by (auto simp: available_def readable_def)
  then show ?thesis by (simp add: loadBE_def advance_def)
qed

lemma storeBE_appends: "appends (\<lambda>b. Inr (storeBE n v b)) (bytesBE n v)"
  by (auto simp: appends_def storeBE_def allocate_def ensureCapacity_def Let_def wfBuffer_def
      toUint8Array_def length_bytesBE max_def)

lemma writeByte_appends: "appends (\<lambda>b. Inr (writeByte v b)) [word_of_int v]"
  by (simp add: appends_def wfBuffer_writeByte toUint8Array_writeByte readPos_writeByte)

lemma reads_loadBE: "length bs = n \<Longrightarrow> reads (loadBE n) bs (uintBE bs)"
  by (simp add: reads_def loadBE_reads)

lemma failsShort_loadBE: "length bs = n \<Longrightarrow> failsShort (loadBE n) bs"
  unfolding failsShort_def
proof (intro allI impI)
  fix b q assume "length bs = n" and a: "readable b \<and> q \<noteq> [] \<and> unread b @ q = bs"
  then have "length (unread b) < n" by auto
  then show "\<exists>e. loadBE n b = Inl e" using loadBE_underflow a by blast
qed

lemma uintBE_snoc: "uintBE (xs @ [b]) = uintBE xs * 256 + uint b"
  by (simp add: uintBE_def)

lemma take_bit_split8:
  "take_bit (8 + m) (v::int) = take_bit m (drop_bit 8 v) * 256 + take_bit 8 v"
proof -
  have "v mod (256 * 2 ^ m) = 256 * (v div 256 mod 2 ^ m) + v mod 256"
    using mod_mult2_eq'[of v 256 "2 ^ m"] by simp
  then show ?thesis
    by (simp add: take_bit_eq_mod drop_bit_eq_div power_add mult.commute)
qed

lemma uint_byte_of_int: "uint (word_of_int v :: byte) = take_bit 8 v"
  by (simp add: uint_word_of_int take_bit_eq_mod)

lemma uintBE_bytesBE: "uintBE (bytesBE n v) = take_bit (8 * n) v"
proof (induction n arbitrary: v)
  case 0
  then show ?case by (simp add: uintBE_def)
next
  case (Suc n)
  have "8 * Suc n = 8 + 8 * n" by simp
  then show ?case
    using Suc[of "drop_bit 8 v"] take_bit_split8[of "8 * n" v]
    by (simp add: uintBE_snoc uint_byte_of_int)
qed

lemma signedOf_take_bit:
  assumes "0 < bits" "- (2 ^ (bits - 1)) \<le> n" "n < 2 ^ (bits - 1)"
  shows "signedOf bits (take_bit bits n) = n"
proof -
  have p: "(2::int) ^ bits = 2 * 2 ^ (bits - 1)"
    using assms(1) by (cases bits) simp_all
  show ?thesis
  proof (cases "0 \<le> n")
    case True
    then have "take_bit bits n = n"
      using assms(3) p by (simp add: take_bit_eq_mod)
    then show ?thesis using assms(3) by (simp add: signedOf_def)
  next
    case False
    have "n mod 2 ^ bits = (n + 2 ^ bits) mod 2 ^ bits" by simp
    also have "\<dots> = n + 2 ^ bits"
      using False assms(2) p by (intro mod_pos_pos_trivial) simp_all
    finally have "take_bit bits n = n + 2 ^ bits"
      by (simp add: take_bit_eq_mod)
    then show ?thesis using False assms(2) p by (simp add: signedOf_def)
  qed
qed

lemma take_bit_unsigned:
  assumes "0 \<le> n" "n < 2 ^ bits"
  shows "take_bit bits (n::int) = n"
  using assms by (simp add: take_bit_eq_mod)

subsection \<open>LEB128\<close>

lemma int127_mask: "(127::int) = mask 7"
  by (simp add: mask_eq_exp_minus_1)

lemma low7: "(v::int) AND 0x7F = take_bit 7 v"
  unfolding int127_mask by (simp add: take_bit_eq_mask)

lemma int128_bit: "bit (128::int) n \<longleftrightarrow> n = 7"
proof -
  have "(128::int) = push_bit 7 1" by simp
  then show ?thesis by (simp only: bit_push_bit_iff) (auto simp: bit_simps)
qed

lemma cont_byte:
  fixes v :: int
  defines "u \<equiv> (v AND 0x7F) OR 0x80"
  shows "uint (word_of_int u :: byte) = u" "u AND 0x7F = take_bit 7 v" "u AND 0x80 \<noteq> 0"
proof -
  have u: "u = take_bit 7 v OR 128" by (simp add: u_def low7)
  have "take_bit 8 u = u"
    unfolding u by (rule bit_eqI) (auto simp: bit_simps int128_bit)
  then show "uint (word_of_int u :: byte) = u" by (simp add: uint_byte_of_int)
  show "u AND 0x7F = take_bit 7 v"
    unfolding low7 u by (rule bit_eqI) (auto simp: bit_simps int128_bit)
  have "bit (u AND 128) 7" unfolding u by (simp add: bit_simps int128_bit)
  then show "u AND 0x80 \<noteq> 0" by auto
qed

lemma last_byte:
  fixes v :: int
  assumes "0 \<le> v" "v < 128"
  shows "uint (word_of_int v :: byte) = v" "v AND 0x7F = v" "v AND 0x80 = 0"
proof -
  have t: "take_bit 7 v = v" using assms by (simp add: take_bit_eq_mod)
  show "v AND 0x7F = v" by (simp add: low7 t)
  have "take_bit 8 v = v" using assms by (simp add: take_bit_eq_mod)
  then show "uint (word_of_int v :: byte) = v" by (simp add: uint_byte_of_int)
  have "v AND 128 = take_bit 7 v AND 128" by (simp add: t)
  also have "\<dots> = 0" by (rule bit_eqI) (auto simp: bit_simps int128_bit)
  finally show "v AND 0x80 = 0" by simp
qed

lemma split7_int: "take_bit 7 (v::int) OR push_bit 7 (drop_bit 7 v) = v"
proof (rule bit_eqI)
  fix n
  show "bit (take_bit 7 v OR push_bit 7 (drop_bit 7 v)) n = bit v n"
    by (cases "n < 7") (simp_all add: bit_simps)
qed

lemma join_int:
  "(acc OR push_bit s (take_bit 7 v)) OR push_bit (s + 7) (drop_bit 7 v) = acc OR push_bit s (v::int)"
proof -
  have "push_bit s (take_bit 7 v) OR push_bit (s + 7) (drop_bit 7 v)
        = push_bit s (take_bit 7 v OR push_bit 7 (drop_bit 7 v))"
    by (simp add: push_bit_or push_bit_push_bit add.commute)
  then show ?thesis by (simp add: split7_int or.assoc)
qed

lemma join_word:
  "(acc OR push_bit s (word_of_int (take_bit 7 v))) OR push_bit (s + 7) (word_of_int (drop_bit 7 v))
   = acc OR push_bit s (word_of_int v :: 32 word)"
proof -
  have "word_of_int (acc' OR push_bit s v) = (word_of_int acc' OR push_bit s (word_of_int v) :: 32 word)"
    for acc' v
    by (rule bit_eqI) (auto simp: bit_simps)
  have "(word_of_int v :: 32 word) = word_of_int (take_bit 7 v OR push_bit 7 (drop_bit 7 v))"
    by (simp add: split7_int)
  also have "\<dots> = word_of_int (take_bit 7 v) OR push_bit 7 (word_of_int (drop_bit 7 v))"
    by (rule bit_eqI) (auto simp: bit_simps)
  finally show ?thesis
    by (simp add: push_bit_or push_bit_push_bit add.commute or.assoc)
qed

lemma available_pos:
  assumes "readable b" "unread b = x # rest"
  shows "\<not> available b \<le> 0"
  using unread_take(3)[OF assms(1), of "[x]" rest] assms(2) by simp

lemma varUInt32Read_step:
  assumes "i < 5" "readable b" "unread b = x # rest"
  shows "varUInt32Read i s acc b =
     (if uint x AND 0x80 = 0
      then Inr (uint (acc OR push_bit s (word_of_int (uint x AND 0x7F))), consumed 1 b)
      else varUInt32Read (i + 1) (s + 7) (acc OR push_bit s (word_of_int (uint x AND 0x7F)))
             (consumed 1 b))"
  using assms(1) available_pos[OF assms(2,3)] readByte_reads[OF assms(2,3)]
  by (subst varUInt32Read.simps) (simp add: toInt32_def Let_def)

lemma varUInt32Read_empty:
  assumes "i < 5" "readable b" "unread b = []"
  shows "varUInt32Read i s acc b = Inl (VarUInt32Underflow i)"
  using assms(1) readByte_underflow(2)[OF assms(2,3)]
  by (subst varUInt32Read.simps) simp

lemma readable_consumed1:
  assumes "readable b" "unread b = x # rest"
  shows "readable (consumed 1 b)" "unread (consumed 1 b) = rest"
  using readable_consumed[of b "[x]" rest] assms by simp_all

lemma div128_less: "(v::int) < 128 * k \<Longrightarrow> v div 128 < k"
  by linarith

lemma leb32:
  "i < 5 \<Longrightarrow> 0 \<le> v \<Longrightarrow> v < 2 ^ (32 - 7 * i) \<Longrightarrow> s = 7 * i \<Longrightarrow>
   \<exists>bs. bs \<noteq> [] \<and> appends (\<lambda>b. Inr (varUInt32Loop v b)) bs \<and>
        reads (varUInt32Read i s acc) bs (uint (acc OR push_bit s (word_of_int v))) \<and>
        failsShort (varUInt32Read i s acc) bs"
proof (induction "nat v" arbitrary: v i s acc rule: less_induct)
  case less
  show ?case
  proof (cases "v \<ge> 0x80")
    case False
    then have small: "0 \<le> v" "v < 128" using less.prems by simp_all
    let ?bs = "[word_of_int v :: byte]"
    have w: "appends (\<lambda>b. Inr (varUInt32Loop v b)) ?bs"
      using writeByte_appends[of v] False by (simp add: varUInt32Loop.simps[of v])
    have r: "reads (varUInt32Read i s acc) ?bs (uint (acc OR push_bit s (word_of_int v)))"
      unfolding reads_def
    proof (intro allI impI)
      fix b rest assume a: "readable b \<and> unread b = ?bs @ rest"
      then have u: "unread b = word_of_int v # rest" by simp
      show "varUInt32Read i s acc b
            = Inr (uint (acc OR push_bit s (word_of_int v)), consumed (length ?bs) b)"
        using varUInt32Read_step[OF less.prems(1) _ u, of s acc] a last_byte[OF small]
        by simp
    qed
    have f: "failsShort (varUInt32Read i s acc) ?bs"
      unfolding failsShort_def
    proof (intro allI impI)
      fix b q assume a: "readable b \<and> q \<noteq> [] \<and> unread b @ q = ?bs"
      then have "unread b = []" by (cases "unread b") auto
      then show "\<exists>e. varUInt32Read i s acc b = Inl e"
        using varUInt32Read_empty[OF less.prems(1)] a by blast
    qed
    show ?thesis using w r f by blast
  next
    case True
    let ?u = "(v AND 0x7F) OR 0x80"
    let ?x = "word_of_int ?u :: byte"
    let ?acc1 = "acc OR push_bit s (word_of_int (take_bit 7 v))"
    have i4: "i < 4"
    proof (rule ccontr)
      assume "\<not> i < 4"
      then have "i = 4" using less.prems(1) by simp
      then show False using less.prems(3) True by simp
    qed
    have d: "0 \<le> drop_bit 7 v" "nat (drop_bit 7 v) < nat v"
      using less.prems(2) True by (simp_all add: drop_bit_eq_div)
    have e: "32 - 7 * i = 7 + (32 - 7 * (i + 1))" using i4 by simp
    have "v < 2 ^ 7 * 2 ^ (32 - 7 * (i + 1))"
      using less.prems(3) by (simp only: e power_add)
    then have d3: "drop_bit 7 v < 2 ^ (32 - 7 * (i + 1))"
      using div128_less[of v "2 ^ (32 - 7 * (i + 1))"] by (simp add: drop_bit_eq_div)
    obtain bs' where IH: "bs' \<noteq> []" "appends (\<lambda>b. Inr (varUInt32Loop (drop_bit 7 v) b)) bs'"
      "reads (varUInt32Read (i + 1) (s + 7) ?acc1) bs'
         (uint (?acc1 OR push_bit (s + 7) (word_of_int (drop_bit 7 v))))"
      "failsShort (varUInt32Read (i + 1) (s + 7) ?acc1) bs'"
      using less.hyps[OF d(2) _ d(1) d3, of "s + 7" ?acc1] i4 less.prems(4) by auto
    have res: "uint (?acc1 OR push_bit (s + 7) (word_of_int (drop_bit 7 v)))
               = uint (acc OR push_bit s (word_of_int v))"
      using join_word[of acc s v] by simp
    let ?bs = "?x # bs'"
    have w: "appends (\<lambda>b. Inr (varUInt32Loop v b)) ?bs"
    proof -
      have "appends (bindW (\<lambda>b. Inr (writeByte ?u b)) (\<lambda>b. Inr (varUInt32Loop (drop_bit 7 v) b)))
              ([?x] @ bs')"
        by (rule appends_bindW[OF writeByte_appends IH(2)])
      moreover have "bindW (\<lambda>b. Inr (writeByte ?u b)) (\<lambda>b. Inr (varUInt32Loop (drop_bit 7 v) b))
                     = (\<lambda>b. Inr (varUInt32Loop v b))"
        using True by (simp add: bindW_def fun_eq_iff varUInt32Loop.simps[of v])
      ultimately show ?thesis by simp
    qed
    have r: "reads (varUInt32Read i s acc) ?bs (uint (acc OR push_bit s (word_of_int v)))"
      unfolding reads_def
    proof (intro allI impI)
      fix b rest assume a: "readable b \<and> unread b = ?bs @ rest"
      then have u: "unread b = ?x # (bs' @ rest)" by simp
      have c: "readable (consumed 1 b)" "unread (consumed 1 b) = bs' @ rest"
        using readable_consumed1[of b ?x "bs' @ rest"] a u by simp_all
      have "varUInt32Read (i + 1) (s + 7) ?acc1 (consumed 1 b)
            = Inr (uint (acc OR push_bit s (word_of_int v)),
                   consumed (length bs') (consumed 1 b))"
        using IH(3) c res unfolding reads_def by auto
      then show "varUInt32Read i s acc b
            = Inr (uint (acc OR push_bit s (word_of_int v)), consumed (length ?bs) b)"
        using varUInt32Read_step[OF less.prems(1) _ u, of s acc] a cont_byte[of v]
        by (simp add: consumed_consumed)
    qed
    have f: "failsShort (varUInt32Read i s acc) ?bs"
      unfolding failsShort_def
    proof (intro allI impI)
      fix b q assume a: "readable b \<and> q \<noteq> [] \<and> unread b @ q = ?bs"
      show "\<exists>e. varUInt32Read i s acc b = Inl e"
      proof (cases "unread b")
        case Nil
        then show ?thesis using varUInt32Read_empty[OF less.prems(1)] a by blast
      next
        case (Cons y p')
        then have y: "y = ?x" "p' @ q = bs'" using a by simp_all
        have c: "readable (consumed 1 b)" "unread (consumed 1 b) = p'"
          using readable_consumed1[of b y p'] a Cons by simp_all
        then obtain e where "varUInt32Read (i + 1) (s + 7) ?acc1 (consumed 1 b) = Inl e"
          using IH(4) a y unfolding failsShort_def by blast
        then show ?thesis
          using varUInt32Read_step[OF less.prems(1) _ Cons, of s acc] a cont_byte[of v] y
          by simp
      qed
    qed
    show ?thesis using w r f by blast
  qed
qed

lemma varUInt64Read_step:
  assumes "i < 10" "readable b" "unread b = x # rest"
  shows "varUInt64Read i s acc b =
     (if uint x AND 0x80 = 0
      then Inr (take_bit 64 (acc OR push_bit s (uint x AND 0x7F)), consumed 1 b)
      else varUInt64Read (i + 1) (s + 7) (acc OR push_bit s (uint x AND 0x7F)) (consumed 1 b))"
  using assms(1) readByte_reads[OF assms(2,3)]
  by (subst varUInt64Read.simps) (simp add: Let_def)

lemma varUInt64Read_empty:
  assumes "i < 10" "readable b" "unread b = []"
  shows "\<exists>e. varUInt64Read i s acc b = Inl e"
  using assms(1) readByte_underflow(1)[OF assms(2,3)]
  by (subst varUInt64Read.simps) simp

lemma leb64:
  "i < 10 \<Longrightarrow> 0 \<le> v \<Longrightarrow> v < 2 ^ (64 - 7 * i) \<Longrightarrow> s = 7 * i \<Longrightarrow>
   \<exists>bs. bs \<noteq> [] \<and> appends (\<lambda>b. Inr (varUInt64Loop v b)) bs \<and>
        reads (varUInt64Read i s acc) bs (take_bit 64 (acc OR push_bit s v)) \<and>
        failsShort (varUInt64Read i s acc) bs"
proof (induction "nat v" arbitrary: v i s acc rule: less_induct)
  case less
  show ?case
  proof (cases "v \<ge> 0x80")
    case False
    then have small: "0 \<le> v" "v < 128" using less.prems by simp_all
    let ?bs = "[word_of_int v :: byte]"
    have w: "appends (\<lambda>b. Inr (varUInt64Loop v b)) ?bs"
      using writeByte_appends[of v] False by (simp add: varUInt64Loop.simps[of v])
    have r: "reads (varUInt64Read i s acc) ?bs (take_bit 64 (acc OR push_bit s v))"
      unfolding reads_def
    proof (intro allI impI)
      fix b rest assume a: "readable b \<and> unread b = ?bs @ rest"
      then have u: "unread b = word_of_int v # rest" by simp
      show "varUInt64Read i s acc b
            = Inr (take_bit 64 (acc OR push_bit s v), consumed (length ?bs) b)"
        using varUInt64Read_step[OF less.prems(1) _ u, of s acc] a last_byte[OF small]
        by simp
    qed
    have f: "failsShort (varUInt64Read i s acc) ?bs"
      unfolding failsShort_def
    proof (intro allI impI)
      fix b q assume a: "readable b \<and> q \<noteq> [] \<and> unread b @ q = ?bs"
      then have "unread b = []" by (cases "unread b") auto
      then show "\<exists>e. varUInt64Read i s acc b = Inl e"
        using varUInt64Read_empty[OF less.prems(1)] a by blast
    qed
    show ?thesis using w r f by blast
  next
    case True
    let ?u = "(v AND 0x7F) OR 0x80"
    let ?x = "word_of_int ?u :: byte"
    let ?acc1 = "acc OR push_bit s (take_bit 7 v)"
    have i4: "i < 9"
    proof (rule ccontr)
      assume "\<not> i < 9"
      then have "i = 9" using less.prems(1) by simp
      then show False using less.prems(3) True by simp
    qed
    have d: "0 \<le> drop_bit 7 v" "nat (drop_bit 7 v) < nat v"
      using less.prems(2) True by (simp_all add: drop_bit_eq_div)
    have e: "64 - 7 * i = 7 + (64 - 7 * (i + 1))" using i4 by simp
    have "v < 2 ^ 7 * 2 ^ (64 - 7 * (i + 1))"
      using less.prems(3) by (simp only: e power_add)
    then have d3: "drop_bit 7 v < 2 ^ (64 - 7 * (i + 1))"
      using div128_less[of v "2 ^ (64 - 7 * (i + 1))"] by (simp add: drop_bit_eq_div)
    obtain bs' where IH: "bs' \<noteq> []" "appends (\<lambda>b. Inr (varUInt64Loop (drop_bit 7 v) b)) bs'"
      "reads (varUInt64Read (i + 1) (s + 7) ?acc1) bs'
         (take_bit 64 (?acc1 OR push_bit (s + 7) (drop_bit 7 v)))"
      "failsShort (varUInt64Read (i + 1) (s + 7) ?acc1) bs'"
      using less.hyps[OF d(2) _ d(1) d3, of "s + 7" ?acc1] i4 less.prems(4) by auto
    have res: "take_bit 64 (?acc1 OR push_bit (s + 7) (drop_bit 7 v))
               = take_bit 64 (acc OR push_bit s v)"
      using join_int[of acc s v] by simp
    let ?bs = "?x # bs'"
    have w: "appends (\<lambda>b. Inr (varUInt64Loop v b)) ?bs"
    proof -
      have "appends (bindW (\<lambda>b. Inr (writeByte ?u b)) (\<lambda>b. Inr (varUInt64Loop (drop_bit 7 v) b)))
              ([?x] @ bs')"
        by (rule appends_bindW[OF writeByte_appends IH(2)])
      moreover have "bindW (\<lambda>b. Inr (writeByte ?u b)) (\<lambda>b. Inr (varUInt64Loop (drop_bit 7 v) b))
                     = (\<lambda>b. Inr (varUInt64Loop v b))"
        using True by (simp add: bindW_def fun_eq_iff varUInt64Loop.simps[of v])
      ultimately show ?thesis by simp
    qed
    have r: "reads (varUInt64Read i s acc) ?bs (take_bit 64 (acc OR push_bit s v))"
      unfolding reads_def
    proof (intro allI impI)
      fix b rest assume a: "readable b \<and> unread b = ?bs @ rest"
      then have u: "unread b = ?x # (bs' @ rest)" by simp
      have c: "readable (consumed 1 b)" "unread (consumed 1 b) = bs' @ rest"
        using readable_consumed1[of b ?x "bs' @ rest"] a u by simp_all
      have "varUInt64Read (i + 1) (s + 7) ?acc1 (consumed 1 b)
            = Inr (take_bit 64 (acc OR push_bit s v),
                   consumed (length bs') (consumed 1 b))"
        using IH(3) c res unfolding reads_def by auto
      then show "varUInt64Read i s acc b
            = Inr (take_bit 64 (acc OR push_bit s v), consumed (length ?bs) b)"
        using varUInt64Read_step[OF less.prems(1) _ u, of s acc] a cont_byte[of v]
        by (simp add: consumed_consumed)
    qed
    have f: "failsShort (varUInt64Read i s acc) ?bs"
      unfolding failsShort_def
    proof (intro allI impI)
      fix b q assume a: "readable b \<and> q \<noteq> [] \<and> unread b @ q = ?bs"
      show "\<exists>e. varUInt64Read i s acc b = Inl e"
      proof (cases "unread b")
        case Nil
        then show ?thesis using varUInt64Read_empty[OF less.prems(1)] a by blast
      next
        case (Cons y p')
        then have y: "y = ?x" "p' @ q = bs'" using a by simp_all
        have c: "readable (consumed 1 b)" "unread (consumed 1 b) = p'"
          using readable_consumed1[of b y p'] a Cons by simp_all
        then obtain e where "varUInt64Read (i + 1) (s + 7) ?acc1 (consumed 1 b) = Inl e"
          using IH(4) a y unfolding failsShort_def by blast
        then show ?thesis
          using varUInt64Read_step[OF less.prems(1) _ Cons, of s acc] a cont_byte[of v] y
          by simp
      qed
    qed
    show ?thesis using w r f by blast
  qed
qed


subsection \<open>Codecs\<close>

lemma codecI: "appends w bs \<Longrightarrow> reads r bs x \<Longrightarrow> failsShort r bs \<Longrightarrow> codec w r x"
  unfolding codec_def by blast

lemma codec_bind:
  assumes "codec w1 r1 x" "codec w2 (k x) y"
  shows "codec (bindW w1 w2) (bindR r1 k) y"
proof -
  obtain bs where 1: "appends w1 bs" "reads r1 bs x" "failsShort r1 bs"
    using assms(1) unfolding codec_def by blast
  obtain cs where 2: "appends w2 cs" "reads (k x) cs y" "failsShort (k x) cs"
    using assms(2) unfolding codec_def by blast
  have r: "reads (bindR r1 k) (bs @ cs) y"
    using reads_bindR[of r1 bs x k cs y] 1(2) 2(2) by simp
  have f: "failsShort (bindR r1 k) (bs @ cs)"
    using failsShort_bindR[of r1 bs x k cs] 1(2,3) 2(3) by simp
  show ?thesis
    by (rule codecI[OF appends_bindW[OF 1(1) 2(1)] r f])
qed

lemma codec_return: "codec Inr (\<lambda>b. Inr (x, b)) x"
  by (rule codecI[OF appends_Inr_id reads_return failsShort_Nil])

lemma bindW_Inr: "bindW w Inr = w"
  by (auto simp: bindW_def fun_eq_iff split: sum.splits)

lemma codec_map:
  assumes "codec w r x"
  shows "codec w (bindR r (\<lambda>x b. Inr (f x, b))) (f x)"
  using codec_bind[of w r x Inr "\<lambda>x b. Inr (f x, b)" "f x"] assms codec_return[of "f x"]
  by (simp add: bindW_Inr)

lemma codec_VarUInt32:
  assumes "0 \<le> v" "v < 2 ^ 32"
  shows "codec (\<lambda>b. Inr (VarUInt32_serialize v b)) VarUInt32_deserialize v"
proof -
  have t: "take_bit 32 v = v" using assms by (simp add: take_bit_eq_mod)
  have u: "uint (word_of_int v :: 32 word) = v"
    using t by (simp add: uint_word_of_int take_bit_eq_mod)
  obtain bs where "appends (\<lambda>b. Inr (varUInt32Loop v b)) bs"
    "reads (varUInt32Read 0 0 0) bs (uint (0 OR push_bit 0 (word_of_int v :: 32 word)))"
    "failsShort (varUInt32Read 0 0 0) bs"
    using leb32[of 0 v 0 0] assms by auto
  then show ?thesis
    unfolding codec_def VarUInt32_serialize_def[abs_def] VarUInt32_deserialize_def[abs_def]
    using t u by auto
qed

lemma codec_VarUInt64:
  assumes "0 \<le> v" "v < 2 ^ 64"
  shows "codec (\<lambda>b. Inr (VarUInt64_serialize v b)) VarUInt64_deserialize v"
proof -
  have t: "take_bit 64 v = v" using assms by (simp add: take_bit_eq_mod)
  obtain bs where "appends (\<lambda>b. Inr (varUInt64Loop v b)) bs"
    "reads (varUInt64Read 0 0 0) bs (take_bit 64 (0 OR push_bit 0 v))"
    "failsShort (varUInt64Read 0 0 0) bs"
    using leb64[of 0 v 0 0] assms by auto
  then show ?thesis
    unfolding codec_def VarUInt64_serialize_def[abs_def] VarUInt64_deserialize_def[abs_def]
    using t by auto
qed

lemma codec_fixed: "codec (\<lambda>b. Inr (storeBE n v b)) (loadBE n) (take_bit (8 * n) v)"
proof -
  have l: "length (bytesBE n v) = n" by (rule length_bytesBE)
  show ?thesis
    using codecI[OF storeBE_appends[of n v] reads_loadBE[OF l] failsShort_loadBE[OF l]]
    by (simp add: uintBE_bytesBE)
qed

lemma codec_Boolean: "codec (\<lambda>b. Inr (Boolean_serialize x b)) Boolean_deserialize x"
proof -
  let ?v = "if x then 1 else (0::int)"
  let ?bs = "[word_of_int ?v :: byte]"
  have w: "appends (\<lambda>b. Inr (Boolean_serialize x b)) ?bs"
    using writeByte_appends[of ?v] by (simp add: Boolean_serialize_def[abs_def])
  have r: "reads Boolean_deserialize ?bs x"
    unfolding reads_def
  proof (intro allI impI)
    fix b rest assume a: "readable b \<and> unread b = ?bs @ rest"
    then have "readByte b = Inr (Some (uint (word_of_int ?v :: byte)), consumed 1 b)"
      using readByte_reads[of b "word_of_int ?v" rest] by simp
    then show "Boolean_deserialize b = Inr (x, consumed (length ?bs) b)"
      by (simp add: Boolean_deserialize_def)
  qed
  have f: "failsShort Boolean_deserialize ?bs"
    unfolding failsShort_def
  proof (intro allI impI)
    fix b q assume a: "readable b \<and> q \<noteq> [] \<and> unread b @ q = ?bs"
    then have "unread b = []" by (cases "unread b") auto
    then show "\<exists>e. Boolean_deserialize b = Inl e"
      using readByte_underflow(1)[of b] a by (simp add: Boolean_deserialize_def)
  qed
  show ?thesis by (rule codecI[OF w r f])
qed

subsection \<open>Zigzag\<close>

lemma sdb31: "signed_drop_bit 31 (w::32 word) = (if bit w 31 then - 1 else 0)"
proof (rule bit_eqI)
  fix n
  assume "possible_bit TYPE(32 word) n"
  then have n: "n < 32" by (simp add: possible_bit_word)
  show "bit (signed_drop_bit 31 w) n = bit (if bit w 31 then - 1 else 0 :: 32 word) n"
    using n by (cases "n = 0") (auto simp: bit_simps)
qed

lemma zigzag32:
  fixes w :: "32 word"
  defines "z \<equiv> push_bit 1 w XOR signed_drop_bit 31 w"
  shows "drop_bit 1 z XOR - (z AND 1) = w"
proof (cases "bit w 31")
  case False
  then have z: "z = push_bit 1 w" by (simp add: z_def sdb31)
  have "z AND 1 = 0" unfolding z by (simp add: and_one_eq mod_2_eq_odd)
  moreover have "drop_bit 1 z = w"
    unfolding z
  proof (rule bit_eqI)
    fix n
    show "bit (drop_bit 1 (push_bit 1 w)) n = bit w n"
      using False bit_imp_le_length[of w n]
      by (cases "n = 31") (auto simp add: bit_simps simp del: push_bit_Suc drop_bit_Suc)
  qed
  ultimately show ?thesis by simp
next
  case True
  then have z: "z = NOT (push_bit 1 w)" by (simp add: z_def sdb31)
  have "z AND 1 = 1" unfolding z by (simp add: and_one_eq mod_2_eq_odd)
  moreover have "NOT (drop_bit 1 z) = w"
    unfolding z
  proof (rule bit_eqI)
    fix n
    assume "possible_bit TYPE(32 word) n"
    then have n: "n < 32" by (simp add: possible_bit_word)
    show "bit (NOT (drop_bit 1 (NOT (push_bit 1 w)))) n = bit w n"
      using True n
      by (cases "n = 31") (auto simp add: bit_simps simp del: push_bit_Suc drop_bit_Suc)
  qed
  ultimately show ?thesis by simp
qed

lemma zigzag64:
  fixes v :: int
  assumes "- (2 ^ 63) \<le> v" "v < 2 ^ 63"
  defines "z \<equiv> push_bit 1 v XOR drop_bit 63 v"
  shows "0 \<le> z" "z < 2 ^ 64" "drop_bit 1 z XOR - (z AND 1) = v"
proof -
  have c: "(v \<ge> 0 \<and> z = 2 * v) \<or> (v < 0 \<and> z = NOT (2 * v))"
  proof (cases "v \<ge> 0")
    case True
    then have "drop_bit 63 v = 0" using assms(2) by (simp add: drop_bit_eq_div)
    then show ?thesis using True by (simp add: z_def push_bit_eq_mult)
  next
    case False
    then have "v div 2 ^ 63 = - 1"
      using assms(1) by (simp add: div_pos_neg_trivial zdiv_eq_0_iff)
    then have "drop_bit 63 v = - 1" by (simp add: drop_bit_eq_div)
    then show ?thesis using False by (simp add: z_def push_bit_eq_mult)
  qed
  show "0 \<le> z" using c by (auto simp: not_int_def)
  show "z < 2 ^ 64" using c assms by (auto simp: not_int_def)
  show "drop_bit 1 z XOR - (z AND 1) = v"
  proof (cases "v \<ge> 0")
    case True
    then have z: "z = 2 * v" using c by auto
    have "z AND 1 = 0" unfolding z by (simp add: and_one_eq)
    moreover have "drop_bit 1 z = v" unfolding z by (simp add: drop_bit_eq_div)
    ultimately show ?thesis by simp
  next
    case False
    then have z: "z = - (2 * v) - 1" using c by (auto simp: not_int_def)
    have "z AND 1 = 1" unfolding z by (simp add: and_one_eq, presburger)
    moreover have "drop_bit 1 z = - v - 1" unfolding z by (simp add: drop_bit_eq_div)
    moreover have "(- v - 1) XOR - 1 = v"
    proof -
      have "(- v - 1) XOR - 1 = NOT (- v - 1)" by (rule bit.xor_one_right)
      also have "\<dots> = v" by (simp only: not_int_def)
      finally show ?thesis .
    qed
    ultimately show ?thesis by simp
  qed
qed

lemma codec_VarInt32:
  assumes "- (2 ^ 31) \<le> v" "v < 2 ^ 31"
  shows "codec (\<lambda>b. Inr (VarInt32_serialize v b)) VarInt32_deserialize v"
proof -
  let ?w = "word_of_int v :: 32 word"
  let ?z = "push_bit 1 ?w XOR signed_drop_bit 31 ?w"
  let ?f = "\<lambda>zigzag. sint (drop_bit 1 (word_of_int zigzag :: 32 word)
                                XOR - ((word_of_int zigzag :: 32 word) AND 1))"
  have "take_bit 32 (sint ?z) = take_bit 32 (uint ?z)"
    by (simp add: sint_uint take_bit_signed_take_bit)
  moreover have "take_bit 32 (uint ?z) = uint ?z"
    using uint_lt2p[of ?z] by (intro take_bit_unsigned) simp_all
  ultimately have "VarUInt32_serialize (sint ?z) = VarUInt32_serialize (uint ?z)"
    by (simp add: VarUInt32_serialize_def fun_eq_iff)
  then have ser: "(\<lambda>b. Inr (VarInt32_serialize v b)) = (\<lambda>b. Inr (VarUInt32_serialize (uint ?z) b))"
    by (simp add: VarInt32_serialize_def fun_eq_iff Let_def)
  have des: "VarInt32_deserialize = bindR VarUInt32_deserialize (\<lambda>zigzag b. Inr (?f zigzag, b))"
    by (auto simp: VarInt32_deserialize_def bindR_def fun_eq_iff Let_def split: sum.splits)
  have "uint ?z < 2 ^ 32" using uint_lt2p[of ?z] by simp
  then have "codec (\<lambda>b. Inr (VarUInt32_serialize (uint ?z) b)) VarUInt32_deserialize (uint ?z)"
    by (intro codec_VarUInt32) simp_all
  then have "codec (\<lambda>b. Inr (VarUInt32_serialize (uint ?z) b))
               (bindR VarUInt32_deserialize (\<lambda>zigzag b. Inr (?f zigzag, b))) (?f (uint ?z))"
    by (rule codec_map)
  moreover have "?f (uint ?z) = v"
  proof -
    have "?f (uint ?z) = sint ?w" using zigzag32[of ?w] by simp
    also have "\<dots> = v"
      using assms by (simp add: sint_sbintrunc' signed_take_bit_int_eq_self)
    finally show ?thesis .
  qed
  ultimately show ?thesis by (simp add: ser des)
qed

lemma codec_VarInt64:
  assumes "- (2 ^ 63) \<le> v" "v < 2 ^ 63"
  shows "codec (\<lambda>b. Inr (VarInt64_serialize v b)) VarInt64_deserialize v"
proof -
  let ?z = "push_bit 1 v XOR drop_bit 63 v"
  let ?f = "\<lambda>zigzag. drop_bit 1 zigzag XOR - (zigzag AND (1::int))"
  have ser: "(\<lambda>b. Inr (VarInt64_serialize v b)) = (\<lambda>b. Inr (VarUInt64_serialize ?z b))"
    by (simp add: VarInt64_serialize_def fun_eq_iff Let_def)
  have des: "VarInt64_deserialize = bindR VarUInt64_deserialize (\<lambda>zigzag b. Inr (?f zigzag, b))"
    by (auto simp: VarInt64_deserialize_def bindR_def fun_eq_iff split: sum.splits)
  have "codec (\<lambda>b. Inr (VarUInt64_serialize ?z b)) VarUInt64_deserialize ?z"
    using zigzag64(1,2)[OF assms] by (intro codec_VarUInt64)
  then have "codec (\<lambda>b. Inr (VarUInt64_serialize ?z b))
               (bindR VarUInt64_deserialize (\<lambda>zigzag b. Inr (?f zigzag, b))) (?f ?z)"
    by (rule codec_map)
  then show ?thesis using zigzag64(3)[OF assms] by (simp add: ser des)
qed

subsection \<open>Strings\<close>

lemma fromCharCode_uint: "fromCharCode (uint c) = c"
  by (simp add: fromCharCode_def)

lemma codec_charCodes:
  "codec (\<lambda>b. Inr (writeCharCodes cs b)) (readCharCodes (length cs) acc) (acc @ cs)"
proof (induction cs arbitrary: acc)
  case Nil
  have "readCharCodes 0 acc = (\<lambda>b. Inr (acc, b))" by (simp add: fun_eq_iff)
  then show ?case using codec_return[of acc] by simp
next
  case (Cons c cs)
  let ?k = "\<lambda>charCode b1. readCharCodes (length cs) (acc @ [fromCharCode charCode]) b1"
  have w: "(\<lambda>b. Inr (writeCharCodes (c # cs) b))
           = bindW (\<lambda>b. Inr (VarUInt32_serialize (uint c) b)) (\<lambda>b. Inr (writeCharCodes cs b))"
    by (simp add: bindW_def fun_eq_iff)
  have r: "readCharCodes (length (c # cs)) acc = bindR VarUInt32_deserialize ?k"
    by (simp add: bindR_def fun_eq_iff)
  have "uint c < 2 ^ 32" using uint_lt2p[of c] by simp
  then have 1: "codec (\<lambda>b. Inr (VarUInt32_serialize (uint c) b)) VarUInt32_deserialize (uint c)"
    by (intro codec_VarUInt32) simp_all
  have 2: "codec (\<lambda>b. Inr (writeCharCodes cs b)) (?k (uint c)) (acc @ c # cs)"
    using Cons[of "acc @ [c]"] by (simp add: fromCharCode_uint)
  show ?case
    unfolding w r
    using codec_bind[of _ VarUInt32_deserialize "uint c" _ ?k "acc @ c # cs"] 1 2 by blast
qed

lemma codec_String:
  assumes "length s < 2 ^ 32"
  shows "codec (\<lambda>b. Inr (String_serialize s b)) String_deserialize s"
proof -
  let ?k = "\<lambda>len b1. readCharCodes (nat len) [] b1"
  have w: "(\<lambda>b. Inr (String_serialize s b))
           = bindW (\<lambda>b. Inr (VarUInt32_serialize (int (length s)) b))
               (\<lambda>b. Inr (writeCharCodes s b))"
    by (simp add: bindW_def fun_eq_iff String_serialize_def)
  have r: "String_deserialize = bindR VarUInt32_deserialize ?k"
    by (simp add: bindR_def fun_eq_iff String_deserialize_def)
  have 1: "codec (\<lambda>b. Inr (VarUInt32_serialize (int (length s)) b)) VarUInt32_deserialize
             (int (length s))"
    using assms by (intro codec_VarUInt32) simp_all
  have 2: "codec (\<lambda>b. Inr (writeCharCodes s b)) (?k (int (length s))) s"
    using codec_charCodes[of s "[]"] by simp
  show ?thesis
    unfolding w r
    using codec_bind[of _ VarUInt32_deserialize "int (length s)" _ ?k s] 1 2 by blast
qed


subsection \<open>Loops\<close>

lemma forEachM_Cons: "forEachM f (x # xs) = bindW (f x) (forEachM f xs)"
  by (simp add: bindW_def fun_eq_iff)

lemma loopM_Suc: "loopM (Suc n) body acc = bindR (body acc) (\<lambda>r1 b1. loopM n body r1 b1)"
  by (simp add: bindR_def fun_eq_iff)

lemma foldM_Cons: "foldM body (x # xs) acc = bindR (body x acc) (\<lambda>r1 b1. foldM body xs r1 b1)"
  by (simp add: bindR_def fun_eq_iff)

lemma codec_loop:
  assumes "\<And>x acc. x \<in> set xs \<Longrightarrow> codec (f x) (body acc) (g acc x)"
  shows "codec (forEachM f xs) (loopM (length xs) body acc) (foldl g acc xs)"
  using assms
proof (induction xs arbitrary: acc)
  case Nil
  have "forEachM f [] = Inr" "loopM 0 body acc = (\<lambda>b. Inr (acc, b))"
    by (simp_all add: fun_eq_iff)
  then show ?case using codec_return[of acc] by simp
next
  case (Cons x xs)
  have 1: "codec (f x) (body acc) (g acc x)" using Cons.prems by simp
  have 2: "codec (forEachM f xs) (loopM (length xs) body (g acc x)) (foldl g (g acc x) xs)"
    using Cons.IH[of "g acc x"] Cons.prems by simp
  show ?case
    using codec_bind[of "f x" "body acc" "g acc x" "forEachM f xs"
        "\<lambda>r1 b1. loopM (length xs) body r1 b1" "foldl g (g acc x) xs"] 1 2
    by (simp add: forEachM_Cons loopM_Suc)
qed

lemma foldl_snoc_list: "foldl (\<lambda>r x. r @ [x]) acc xs = acc @ xs"
  by (induction xs arbitrary: acc) simp_all

lemma foldl_setAdd:
  assumes "distinctKeys xs" "list_all (\<lambda>y. list_all (\<lambda>x. \<not> sameValueZero y x) xs) acc"
  shows "foldl setAdd acc xs = acc @ xs"
  using assms
proof (induction xs arbitrary: acc)
  case Nil
  then show ?case by simp
next
  case (Cons x xs)
  have "setAdd acc x = acc @ [x]"
    using Cons.prems by (auto simp: setAdd_def list_ex_iff list_all_iff)
  moreover have "list_all (\<lambda>y. list_all (\<lambda>x. \<not> sameValueZero y x) xs) (acc @ [x])"
    using Cons.prems by (auto simp: list_all_iff)
  ultimately show ?case using Cons.IH[of "acc @ [x]"] Cons.prems by simp
qed

lemma foldl_mapSet:
  assumes "distinctKeys (map fst es)"
    "list_all (\<lambda>y. list_all (\<lambda>x. \<not> sameValueZero (fst y) (fst x)) es) acc"
  shows "foldl (\<lambda>r e. mapSet r (fst e) (snd e)) acc es = acc @ es"
  using assms
proof (induction es arbitrary: acc)
  case Nil
  then show ?case by simp
next
  case (Cons e es)
  have "mapSet acc (fst e) (snd e) = acc @ [e]"
    using Cons.prems by (auto simp: mapSet_def list_ex_iff list_all_iff)
  moreover have "list_all (\<lambda>y. list_all (\<lambda>x. \<not> sameValueZero (fst y) (fst x)) es) (acc @ [e])"
    using Cons.prems by (auto simp: list_all_iff)
  ultimately show ?case using Cons.IH[of "acc @ [e]"] Cons.prems by simp
qed

lemma valid_not_null: "\<not> valid s VNull"
  by (induction s) simp_all

lemma objSet_fresh:
  "key \<noteq> protoKey \<Longrightarrow> key \<notin> fst ` set acc \<Longrightarrow> objSet acc key x = acc @ [(key, x)]"
  by (simp add: objSet_def)

lemma codec_fields:
  assumes "list_all2 (\<lambda>field prop. fst prop = fst field \<and>
              (\<exists>s. snd field = Some s \<and> codec (serialize s (snd prop)) (deserialize s) (snd prop)))
            schema props"
    and "distinct (map fst schema)"
    and "fst ` set acc \<inter> fst ` set schema = {}"
    and "\<And>prop. prop \<in> set props \<Longrightarrow> look (fst prop) = snd prop"
    and "protoKey \<notin> fst ` set schema"
  shows "codec
           (forEachM (\<lambda>field b. case snd field of
                                     None \<Rightarrow> Inl TypeError
                                   | Some s \<Rightarrow> serialize s (look (fst field)) b) schema)
           (foldM (\<lambda>field result b. case snd field of
                                       None \<Rightarrow> Inr (result, b)
                                     | Some s \<Rightarrow>
                                         (case deserialize s b of
                                            Inl e \<Rightarrow> Inl e
                                          | Inr (x, b1) \<Rightarrow> Inr (objSet result (fst field) x, b1)))
              schema acc)
           (acc @ props)"
  using assms
proof (induction schema props arbitrary: acc rule: list_all2_induct)
  case Nil
  have "forEachM (\<lambda>field b. case snd field of None \<Rightarrow> Inl TypeError
                    | Some s \<Rightarrow> serialize s (look (fst field)) b) [] = Inr"
    by (simp add: fun_eq_iff)
  moreover have "foldM (\<lambda>field result b. case snd field of None \<Rightarrow> Inr (result, b)
                    | Some s \<Rightarrow> (case deserialize s b of Inl e \<Rightarrow> Inl e
                        | Inr (x, b1) \<Rightarrow> Inr (objSet result (fst field) x, b1))) [] acc
                 = (\<lambda>b. Inr (acc, b))"
    by (simp add: fun_eq_iff)
  ultimately show ?case using codec_return[of acc] by simp
next
  case (Cons fld sch pr prs)
  let ?f = "\<lambda>field b. case snd field of None \<Rightarrow> Inl TypeError
                    | Some s \<Rightarrow> serialize s (look (fst field)) b"
  let ?body = "\<lambda>field result b. case snd field of None \<Rightarrow> Inr (result, b)
                    | Some s \<Rightarrow> (case deserialize s b of Inl e \<Rightarrow> Inl e
                        | Inr (x, b1) \<Rightarrow> Inr (objSet result (fst field) x, b1))"
  obtain s where s: "snd fld = Some s" "fst pr = fst fld"
    "codec (serialize s (snd pr)) (deserialize s) (snd pr)"
    using Cons.hyps(1) by blast
  have look: "look (fst fld) = snd pr" using Cons.prems(3)[of pr] s(2) by simp
  have fresh: "fst fld \<notin> fst ` set acc" using Cons.prems(2) by auto
  have np: "fst fld \<noteq> protoKey" using Cons.prems(4) by auto
  have fx: "?f fld = serialize s (snd pr)"
    using s(1) look by (simp add: fun_eq_iff)
  have bx: "?body fld acc = bindR (deserialize s) (\<lambda>x b. Inr (objSet acc (fst fld) x, b))"
    using s(1) by (simp add: fun_eq_iff bindR_def)
  have 1: "codec (?f fld) (?body fld acc) (acc @ [pr])"
    unfolding fx bx
    using codec_map[OF s(3), of "\<lambda>x. objSet acc (fst fld) x"] objSet_fresh[OF np fresh, of "snd pr"] s(2)
    by (cases pr) simp
  have "fst ` set (acc @ [pr]) \<inter> fst ` set sch = {}"
    using Cons.prems(1,2) s(2) by auto
  then have 2: "codec (forEachM ?f sch) (foldM ?body sch (acc @ [pr])) ((acc @ [pr]) @ prs)"
    using Cons.IH[of "acc @ [pr]"] Cons.prems(1,3,4) by simp
  show ?case
    using codec_bind[of "?f fld" "?body fld acc" "acc @ [pr]" "forEachM ?f sch"
        "\<lambda>r1 b1. foldM ?body sch r1 b1" "acc @ pr # prs"] 1 2
    by (simp add: forEachM_Cons foldM_Cons)
qed

lemma codec_positions:
  assumes "list_all2 (\<lambda>so x. \<exists>s. so = Some s \<and> codec (serialize s x) (deserialize s) x) ss xs"
    and "\<And>i. i < length xs \<Longrightarrow> look (k + i) = xs ! i"
  shows "codec
           (forEachM (\<lambda>p b. case snd p of
                                 None \<Rightarrow> Inl TypeError
                               | Some s \<Rightarrow> serialize s (look (fst p)) b)
              (zip [k..<k + length ss] ss))
           (foldM (\<lambda>serializer result b. case serializer of
                                            None \<Rightarrow> Inr (result, b)
                                          | Some s \<Rightarrow>
                                              (case deserialize s b of
                                                 Inl e \<Rightarrow> Inl e
                                               | Inr (x, b1) \<Rightarrow> Inr (result @ [x], b1)))
              ss acc)
           (acc @ xs)"
  using assms
proof (induction ss xs arbitrary: acc k rule: list_all2_induct)
  case Nil
  have "forEachM (\<lambda>p b. case snd p of None \<Rightarrow> Inl TypeError
                    | Some s \<Rightarrow> serialize s (look (fst p)) b) [] = Inr"
    by (simp add: fun_eq_iff)
  moreover have "foldM (\<lambda>serializer result b. case serializer of None \<Rightarrow> Inr (result, b)
                    | Some s \<Rightarrow> (case deserialize s b of Inl e \<Rightarrow> Inl e
                        | Inr (x, b1) \<Rightarrow> Inr (result @ [x], b1))) [] acc
                 = (\<lambda>b. Inr (acc, b))"
    by (simp add: fun_eq_iff)
  ultimately show ?case using codec_return[of acc] by simp
next
  case (Cons so ss x xs)
  let ?f = "\<lambda>p b. case snd p of None \<Rightarrow> Inl TypeError
                    | Some s \<Rightarrow> serialize s (look (fst p)) b"
  let ?body = "\<lambda>serializer result b. case serializer of None \<Rightarrow> Inr (result, b)
                    | Some s \<Rightarrow> (case deserialize s b of Inl e \<Rightarrow> Inl e
                        | Inr (x, b1) \<Rightarrow> Inr (result @ [x], b1))"
  obtain s where s: "so = Some s" "codec (serialize s x) (deserialize s) x"
    using Cons.hyps(1) by blast
  have look: "look k = x" using Cons.prems[of 0] by simp
  have "[k..<k + length (so # ss)] = k # [Suc k..<Suc k + length ss]"
    by (simp add: upt_conv_Cons del: upt_Suc)
  then have z: "zip [k..<k + length (so # ss)] (so # ss) = (k, so) # zip [Suc k..<Suc k + length ss] ss"
    by (simp del: upt_Suc)
  have fx: "?f (k, so) = serialize s x"
    using s(1) look by (simp add: fun_eq_iff)
  have bx: "?body so acc = bindR (deserialize s) (\<lambda>x b. Inr (acc @ [x], b))"
    using s(1) by (simp add: fun_eq_iff bindR_def)
  have 1: "codec (?f (k, so)) (?body so acc) (acc @ [x])"
    unfolding fx bx using codec_map[OF s(2), of "\<lambda>x. acc @ [x]"] by simp
  have "\<And>i. i < length xs \<Longrightarrow> look (Suc k + i) = xs ! i"
    using Cons.prems[of "Suc _"] by simp
  then have 2: "codec (forEachM ?f (zip [Suc k..<Suc k + length ss] ss))
                  (foldM ?body ss (acc @ [x])) ((acc @ [x]) @ xs)"
    using Cons.IH[of "Suc k" "acc @ [x]"] by blast
  show ?case
    unfolding z
    using codec_bind[of "?f (k, so)" "?body so acc" "acc @ [x]"
        "forEachM ?f (zip [Suc k..<Suc k + length ss] ss)"
        "\<lambda>r1 b1. foldM ?body ss r1 b1" "acc @ x # xs"] 1 2
    by (simp add: forEachM_Cons foldM_Cons)
qed

subsection \<open>Numbers\<close>

lemma bitLength_nonpos: "n \<le> 0 \<Longrightarrow> bitLength n = 0"
  by (simp add: bitLength.simps)

lemma bitLength_pos: "0 < n \<Longrightarrow> bitLength n = Suc (bitLength (n div 2))"
  by (simp add: bitLength.simps)

lemma bitLength_unique: "2 ^ k \<le> n \<Longrightarrow> n < 2 ^ Suc k \<Longrightarrow> bitLength n = Suc k"
proof (induction k arbitrary: n)
  case 0
  then have "n = 1" by simp
  then show ?case by (simp add: bitLength_pos bitLength_nonpos)
next
  case (Suc k)
  have "(0::int) < 2 ^ Suc k" by simp
  then have p: "0 < n" using Suc.prems(1) by linarith
  have "2 ^ k \<le> n div 2" "n div 2 < 2 ^ Suc k" using Suc.prems by auto
  then have "bitLength (n div 2) = Suc k" by (rule Suc.IH)
  then show ?case using p by (simp add: bitLength_pos)
qed

lemma bitLength_bounds: "0 < n \<Longrightarrow> 2 ^ (bitLength n - 1) \<le> n \<and> n < 2 ^ bitLength n"
proof (induction n rule: bitLength.induct)
  case (1 n)
  show ?case
  proof (cases "n div 2 = 0")
    case True
    then have "n = 1" using 1(2) by auto
    then show ?thesis by (simp add: bitLength_pos bitLength_nonpos)
  next
    case False
    then have h: "0 < n div 2" using 1(2) by auto
    then have ih: "2 ^ (bitLength (n div 2) - 1) \<le> n div 2" "n div 2 < 2 ^ bitLength (n div 2)"
      using 1 by auto
    have b: "bitLength (n div 2) = Suc (bitLength (n div 2) - 1)"
      using h by (simp add: bitLength_pos[of "n div 2"])
    have "2 * 2 ^ (bitLength (n div 2) - 1) \<le> 2 * (n div 2)" using ih(1) by simp
    moreover have "2 * (n div 2) \<le> n" by presburger
    moreover have "(2::int) ^ bitLength (n div 2) = 2 * 2 ^ (bitLength (n div 2) - 1)"
      using b by (metis power_Suc)
    ultimately have "2 ^ bitLength (n div 2) \<le> n" by linarith
    moreover have "n < 2 ^ Suc (bitLength (n div 2))" using ih(2) by auto
    ultimately show ?thesis using 1(2) by (simp add: bitLength_pos[of n])
  qed
qed


lemma bitLength_mult:
  assumes "0 < n"
  shows "bitLength (n * 2 ^ k) = bitLength n + k"
proof -
  obtain b where b: "bitLength n = Suc b" using assms by (auto simp: bitLength_pos)
  have "2 ^ b \<le> n" "n < 2 ^ Suc b" using bitLength_bounds[OF assms] b by auto
  then have "2 ^ b * 2 ^ k \<le> n * 2 ^ k" "n * 2 ^ k < 2 ^ Suc b * 2 ^ k"
    by simp_all
  then have "2 ^ (b + k) \<le> n * 2 ^ k" "n * 2 ^ k < 2 ^ Suc (b + k)"
    by (simp_all add: power_add)
  then show ?thesis using bitLength_unique[of "b + k" "n * 2 ^ k"] b by simp
qed

lemma bitLength_le:
  assumes "0 < n" "n < 2 ^ k"
  shows "bitLength n \<le> k"
proof (rule ccontr)
  assume "\<not> bitLength n \<le> k"
  then have "k \<le> bitLength n - 1" by simp
  then have "(2::int) ^ k \<le> 2 ^ (bitLength n - 1)" by (simp add: power_increasing)
  then show False using bitLength_bounds[OF assms(1)] assms(2) by linarith
qed

lemma bitLength_ge:
  assumes "2 ^ k \<le> n"
  shows "k < bitLength n"
proof (rule ccontr)
  assume "\<not> k < bitLength n"
  then have "(2::int) ^ bitLength n \<le> 2 ^ k" by (simp add: power_increasing)
  moreover have "(0::int) < 2 ^ k" by simp
  then have "0 < n" using assms by linarith
  ultimately show False using bitLength_bounds[of n] assms by linarith
qed

lemma roundHalfEven_exact: "M mod 2 ^ sh = 0 \<Longrightarrow> roundHalfEven M sh = M div 2 ^ sh"
  by (simp add: roundHalfEven_def Let_def)

lemma roundHalfEven_scale:
  assumes "0 < sh"
  shows "roundHalfEven (M * 2 ^ k) (sh + k) = roundHalfEven M sh"
proof -
  have d: "(M * 2 ^ k) div 2 ^ (sh + k) = M div 2 ^ sh"
    by (simp add: power_add)
  have m: "(M * 2 ^ k) mod 2 ^ (sh + k) = (M mod 2 ^ sh) * 2 ^ k"
    by (simp add: power_add)
  have h: "(2::int) ^ (sh + k - 1) = 2 ^ (sh - 1) * 2 ^ k"
    using assms by (simp add: power_add[symmetric])
  show ?thesis
    unfolding roundHalfEven_def Let_def d m h by simp
qed


lemma roundF_scale:
  assumes "0 < M"
  shows "roundF eb mb (M * 2 ^ k) (E - int k) = roundF eb mb M E"
proof -
  let ?q = "quantum eb mb M E"
  have q: "quantum eb mb (M * 2 ^ k) (E - int k) = ?q"
    by (simp add: quantum_def bitLength_mult[OF assms])
  have nz: "M * 2 ^ k \<noteq> 0" "M \<noteq> 0" using assms by simp_all
  have "(if ?q \<le> E - int k then M * 2 ^ k * 2 ^ nat (E - int k - ?q)
         else roundHalfEven (M * 2 ^ k) (nat (?q - (E - int k))))
      = (if ?q \<le> E then M * 2 ^ nat (E - ?q) else roundHalfEven M (nat (?q - E)))"
  proof -
    consider (a) "?q \<le> E - int k" | (b) "E - int k < ?q" "?q \<le> E" | (c) "E < ?q"
      by linarith
    then show ?thesis
    proof cases
      case a
      then have "nat (E - ?q) = k + nat (E - int k - ?q)" by linarith
      then show ?thesis using a by (simp add: power_add mult.assoc)
    next
      case b
      define sh where "sh = nat (?q - (E - int k))"
      define j where "j = nat (E - ?q)"
      have k: "k = j + sh" using b by (simp add: sh_def j_def)
      have e: "M * 2 ^ k = (M * 2 ^ j) * 2 ^ sh" by (simp only: k power_add mult.assoc)
      have "roundHalfEven ((M * 2 ^ j) * 2 ^ sh) sh = M * 2 ^ j"
        by (simp add: roundHalfEven_exact)
      then have "roundHalfEven (M * 2 ^ k) sh = M * 2 ^ j" by (simp only: e)
      then show ?thesis using b by (simp add: sh_def j_def)
    next
      case c
      define sh where "sh = nat (?q - E)"
      have sh: "0 < sh" "nat (?q - (E - int k)) = sh + k" using c by (simp_all add: sh_def)
      show ?thesis using c roundHalfEven_scale[OF sh(1), of M k] sh(2)
        by (simp add: sh_def)
    qed
  qed
  then show ?thesis
    unfolding roundF_def[of eb mb "M * 2 ^ k"] roundF_def[of eb mb M] q Let_def
    using nz by simp
qed

lemma decodeF_fields:
  assumes "0 \<le> m" "m < 2 ^ mb" "0 \<le> e" "e < 2 ^ eb"
  shows "decodeF eb mb (signBit eb mb s + e * 2 ^ mb + m) =
         (if e = 2 ^ eb - 1 then (if m = 0 then FInf s else FNaN)
          else if e = 0 then FFin s m (emin eb mb)
          else FFin s (2 ^ mb + m) (emin eb mb + e - 1))"
proof -
  let ?w = "signBit eb mb s + e * 2 ^ mb + m"
  let ?b = "(if s then 1 else 0) :: int"
  have w: "?w = (?b * 2 ^ eb + e) * 2 ^ mb + m"
    by (simp add: signBit_def power_add algebra_simps)
  have 1: "?w mod 2 ^ mb = m" using assms(1,2) unfolding w by simp
  have 2: "?w div 2 ^ mb = ?b * 2 ^ eb + e"
    using assms(1,2) unfolding w by simp
  have 3: "(?b * 2 ^ eb + e) mod 2 ^ eb = e" using assms(3,4) by simp
  have "(2::int) ^ (eb + mb) = 2 ^ mb * 2 ^ eb" by (simp add: power_add)
  then have "?w div 2 ^ (eb + mb) = (?w div 2 ^ mb) div 2 ^ eb"
    using zdiv_zmult2_eq[of "2 ^ eb" ?w "2 ^ mb"] by simp
  then have 4: "?w div 2 ^ (eb + mb) = ?b" using assms(3,4) unfolding 2 by simp
  show ?thesis
    unfolding decodeF_def Let_def 1 2 3 4 by simp
qed

lemma round_normal_form:
  assumes "0 < M" "M < 2 ^ (mb + 1)" "q = emin eb mb \<or> 2 ^ mb \<le> M"
    "emin eb mb \<le> q" "q - emin eb mb < 2 ^ eb - 2"
  shows "roundF eb mb M q = (q - emin eb mb) * 2 ^ mb + M"
    and "decodeF eb mb (signBit eb mb s + roundF eb mb M q) = FFin s M q"
proof -
  have bl: "bitLength M \<le> mb + 1" using bitLength_le[OF assms(1,2)] .
  have "quantum eb mb M q = q"
  proof (cases "q = emin eb mb")
    case True
    then show ?thesis using bl by (simp add: quantum_def)
  next
    case False
    then have "2 ^ mb \<le> M" using assms(3) by simp
    then have "mb < bitLength M" by (rule bitLength_ge)
    then have "bitLength M = mb + 1" using bl by simp
    then show ?thesis using assms(4) by (simp add: quantum_def)
  qed
  moreover have "(q - emin eb mb) * 2 ^ mb + M < (2 ^ eb - 1) * 2 ^ mb"
  proof -
    have "(q - emin eb mb) * 2 ^ mb + M < (q - emin eb mb) * 2 ^ mb + 2 * 2 ^ mb"
      using assms(2) by simp
    also have "\<dots> = (q - emin eb mb + 2) * 2 ^ mb" by (simp add: algebra_simps)
    also have "\<dots> \<le> (2 ^ eb - 1) * 2 ^ mb"
      using assms(5) by (intro mult_right_mono) simp_all
    finally show ?thesis .
  qed
  ultimately show r: "roundF eb mb M q = (q - emin eb mb) * 2 ^ mb + M"
    using assms(1) by (simp add: roundF_def Let_def)
  show "decodeF eb mb (signBit eb mb s + roundF eb mb M q) = FFin s M q"
  proof (cases "M < 2 ^ mb")
    case True
    then have q: "q = emin eb mb" using assms(3) by simp
    have "(0::int) < 2 ^ eb - 2" using assms(4,5) by linarith
    then have e: "(0::int) < 2 ^ eb" "(0::int) \<noteq> 2 ^ eb - 1" by simp_all
    have "roundF eb mb M q = M" using r q by simp
    then show ?thesis
      using decodeF_fields[of M mb 0 eb s] True assms(1) e
      by (simp add: q)
  next
    case False
    let ?e = "q - emin eb mb + 1"
    let ?m = "M - 2 ^ mb"
    have m: "0 \<le> ?m" "?m < 2 ^ mb" using False assms(2) by simp_all
    have e: "0 \<le> ?e" "?e < 2 ^ eb" "?e \<noteq> 2 ^ eb - 1" "?e \<noteq> 0"
      using assms(4,5) by simp_all
    have d: "decodeF eb mb (signBit eb mb s + ?e * 2 ^ mb + ?m) = FFin s M q"
      using decodeF_fields[OF m e(1,2), of s] e(3,4) by simp
    have "signBit eb mb s + roundF eb mb M q = signBit eb mb s + ?e * 2 ^ mb + ?m"
      by (simp add: r algebra_simps)
    then show ?thesis using d by (simp only:)
  qed
qed


lemma roundF_scaled:
  assumes "0 < M" "0 < M'" "scaled M E M' E'"
  shows "roundF eb mb M' E' = roundF eb mb M E"
  using assms roundF_scale[of M eb mb _ E] roundF_scale[of M' eb mb _ E']
  unfolding scaled_def by auto

lemma normal_form:
  assumes "0 < M" "q = quantum eb mb M E" "q \<le> E \<or> M mod 2 ^ nat (q - E) = 0"
  obtains M' where "0 < M'" "M' < 2 ^ (mb + 1)" "q = emin eb mb \<or> 2 ^ mb \<le> M'"
    "scaled M E M' q"
proof -
  define M' where "M' = (if q \<le> E then M * 2 ^ nat (E - q) else M div 2 ^ nat (q - E))"
  have sc: "scaled M E M' q"
  proof (cases "q \<le> E")
    case True
    then have "M' = M * 2 ^ nat (E - q) \<and> q = E - int (nat (E - q))" by (simp add: M'_def)
    then show ?thesis unfolding scaled_def by blast
  next
    case False
    then have "M mod 2 ^ nat (q - E) = 0" using assms(3) by simp
    then have "M = M' * 2 ^ nat (q - E)"
      using False div_mult_mod_eq[of M "2 ^ nat (q - E)"] by (simp add: M'_def)
    moreover have "E = q - int (nat (q - E))" using False by simp
    ultimately show ?thesis unfolding scaled_def by blast
  qed
  have pos: "0 < M'"
    using sc assms(1) unfolding scaled_def
    by (auto simp: zero_less_mult_iff)
  have bl: "int (bitLength M') = int (bitLength M) + E - q"
    using sc bitLength_mult[OF assms(1)] bitLength_mult[OF pos] unfolding scaled_def
    by auto
  have "int (bitLength M') \<le> int mb + 1"
    using bl assms(2) by (simp add: quantum_def)
  then have "bitLength M' \<le> mb + 1" by simp
  then have "(2::int) ^ bitLength M' \<le> 2 ^ (mb + 1)" by (intro power_increasing) simp_all
  then have lt: "M' < 2 ^ (mb + 1)" using bitLength_bounds[OF pos] by linarith
  have "q = emin eb mb \<or> 2 ^ mb \<le> M'"
  proof (cases "q = emin eb mb")
    case False
    then have "q = E + int (bitLength M) - int mb - 1" using assms(2) by (simp add: quantum_def)
    then have "bitLength M' - 1 = mb" using bl by simp
    then show ?thesis using bitLength_bounds[OF pos] by simp
  qed simp
  then show ?thesis using that[OF pos lt _ sc] by blast
qed

lemma encode_decode:
  assumes "0 \<le> w" "w < 2 ^ (eb + mb + 1)" "decodeF eb mb w \<noteq> FNaN" "2 \<le> eb"
  shows "encodeF eb mb (decodeF eb mb w) = w"
proof -
  define s where "s = odd (w div 2 ^ (eb + mb))"
  define e where "e = (w div 2 ^ mb) mod 2 ^ eb"
  define m where "m = w mod 2 ^ mb"
  have m: "0 \<le> m" "m < 2 ^ mb" by (simp_all add: m_def)
  have e: "0 \<le> e" "e < 2 ^ eb" by (simp_all add: e_def)
  have "(2::int) ^ (eb + mb) = 2 ^ mb * 2 ^ eb" by (simp add: power_add)
  then have d: "w div 2 ^ (eb + mb) = (w div 2 ^ mb) div 2 ^ eb"
    using zdiv_zmult2_eq[of "2 ^ eb" w "2 ^ mb"] by simp
  define c where "c = (2::int) ^ (eb + mb)"
  have c: "0 < c" by (simp add: c_def)
  have "c * (w div c) + w mod c = w" by simp
  moreover have "0 \<le> w mod c" using c by simp
  moreover have "w < c * 2" using assms(2) by (simp add: c_def)
  ultimately have "c * (w div c) < c * 2" by linarith
  then have "w div c < 2" using c by (simp only: mult_less_cancel_left_pos)
  moreover have "0 \<le> w div c" using c assms(1) by (simp add: pos_imp_zdiv_nonneg_iff)
  ultimately have "w div 2 ^ (eb + mb) < 2" "0 \<le> w div 2 ^ (eb + mb)"
    by (simp_all add: c_def)
  then have "w div 2 ^ (eb + mb) = (if s then 1 else 0)"
    unfolding s_def by (cases "w div 2 ^ (eb + mb) = 0") auto
  then have sb: "signBit eb mb s = (w div 2 ^ (eb + mb)) * 2 ^ (eb + mb)"
    by (simp add: signBit_def)
  define X where "X = w div 2 ^ mb"
  define Y where "Y = X div 2 ^ eb"
  have w1: "w = X * 2 ^ mb + m" unfolding X_def m_def by (simp only: div_mult_mod_eq)
  have w2: "X = Y * 2 ^ eb + e" unfolding Y_def e_def X_def by (simp only: div_mult_mod_eq)
  have sb': "signBit eb mb s = Y * 2 ^ (eb + mb)" using sb d by (simp add: Y_def X_def)
  have "w = (Y * 2 ^ eb + e) * 2 ^ mb + m" using w1 w2 by simp
  then have w: "w = signBit eb mb s + e * 2 ^ mb + m"
    unfolding sb' by (simp add: power_add algebra_simps)
  have dec: "decodeF eb mb w =
         (if e = 2 ^ eb - 1 then (if m = 0 then FInf s else FNaN)
          else if e = 0 then FFin s m (emin eb mb)
          else FFin s (2 ^ mb + m) (emin eb mb + e - 1))"
    using decodeF_fields[OF m e, of s] w by simp
  have big: "(4::int) \<le> 2 ^ eb" using power_increasing[OF assms(4), of "2::int"] by simp
  consider (inf) "e = 2 ^ eb - 1" "m = 0" | (nan) "e = 2 ^ eb - 1" "m \<noteq> 0"
    | (zero) "e \<noteq> 2 ^ eb - 1" "e = 0" "m = 0" | (sub) "e \<noteq> 2 ^ eb - 1" "e = 0" "0 < m"
    | (norm) "e \<noteq> 2 ^ eb - 1" "0 < e"
    using e(1) m(1) by linarith
  then show ?thesis
  proof cases
    case inf
    then show ?thesis using dec w by (simp add: encodeF_def)
  next
    case nan
    then show ?thesis using dec assms(3) by simp
  next
    case zero
    then show ?thesis using dec w by (simp add: encodeF_def roundF_def)
  next
    case sub
    have "roundF eb mb m (emin eb mb) = (emin eb mb - emin eb mb) * 2 ^ mb + m"
      using sub m big by (intro round_normal_form(1)) simp_all
    then show ?thesis using dec w sub by (simp add: encodeF_def)
  next
    case norm
    let ?q = "emin eb mb + e - 1"
    have "roundF eb mb (2 ^ mb + m) ?q = (?q - emin eb mb) * 2 ^ mb + (2 ^ mb + m)"
      using norm m e by (intro round_normal_form(1)) simp_all
    then show ?thesis using dec w norm by (simp add: encodeF_def algebra_simps)
  qed
qed


lemma decodeF_nonneg: "decodeF eb mb w = FFin s M E \<Longrightarrow> 0 \<le> M"
  by (auto simp: decodeF_def Let_def split: if_splits)

lemma roundHalfEven_nonneg: "0 \<le> M \<Longrightarrow> 0 \<le> roundHalfEven M sh"
  by (simp add: roundHalfEven_def Let_def pos_imp_zdiv_nonneg_iff)

lemma roundF_bounds:
  assumes "0 \<le> M"
  shows "0 \<le> roundF eb mb M E" "roundF eb mb M E \<le> (2 ^ eb - 1) * 2 ^ mb"
proof -
  have "emin eb mb \<le> quantum eb mb M E" by (simp add: quantum_def)
  then have "0 \<le> (quantum eb mb M E - emin eb mb) * 2 ^ mb" by simp
  moreover have "0 \<le> M * 2 ^ nat (E - quantum eb mb M E)" using assms by simp
  moreover have "0 \<le> roundHalfEven M (nat (quantum eb mb M E - E))"
    using assms by (rule roundHalfEven_nonneg)
  ultimately show "0 \<le> roundF eb mb M E" by (simp add: roundF_def Let_def)
  show "roundF eb mb M E \<le> (2 ^ eb - 1) * 2 ^ mb" by (simp add: roundF_def Let_def)
qed

lemma encodeF_bounds:
  assumes "\<And>s M E. v = FFin s M E \<Longrightarrow> 0 \<le> M" "0 < mb"
  shows "0 \<le> encodeF eb mb v" "encodeF eb mb v < 2 ^ (eb + mb + 1)"
proof -
  have l: "(2 ^ eb - 1) * 2 ^ mb + 2 ^ mb = (2::int) ^ (eb + mb)"
    by (simp add: power_add algebra_simps)
  have h: "(2::int) ^ (mb - 1) < 2 ^ mb" using assms(2) by simp
  have lim: "(2 ^ eb - 1) * 2 ^ mb < (2::int) ^ (eb + mb)"
    using l zero_less_power[of "2::int" mb] by linarith
  have t: "(2::int) ^ (eb + mb + 1) = 2 * 2 ^ (eb + mb)" by simp
  have p: "(0::int) \<le> (2 ^ eb - 1) * 2 ^ mb" by simp
  have sb: "0 \<le> signBit eb mb s" "signBit eb mb s \<le> 2 ^ (eb + mb)" for s
    by (simp_all add: signBit_def)
  show "0 \<le> encodeF eb mb v"
    using roundF_bounds(1)[of _ eb mb] assms(1) sb(1) p
    by (cases v) (simp_all add: encodeF_def)
  show "encodeF eb mb v < 2 ^ (eb + mb + 1)"
  proof (cases v)
    case FNaN
    have "(2 ^ eb - 1) * 2 ^ mb + 2 ^ (mb - 1) < (2 ^ eb - 1) * 2 ^ mb + (2::int) ^ mb"
      using h by linarith
    also have "\<dots> = 2 ^ (eb + mb)" by (rule l)
    also have "\<dots> < 2 ^ (eb + mb + 1)" by simp
    finally show ?thesis using FNaN by (simp add: encodeF_def)
  next
    case (FInf s)
    then have "encodeF eb mb v = signBit eb mb s + (2 ^ eb - 1) * 2 ^ mb"
      by (simp add: encodeF_def)
    then show ?thesis using lim sb(2)[of s] unfolding t by linarith
  next
    case (FFin s M E)
    then have "encodeF eb mb v = signBit eb mb s + roundF eb mb M E"
      by (simp add: encodeF_def)
    then show ?thesis
      using lim sb(2)[of s] roundF_bounds(2)[of M eb mb E] assms(1)[OF FFin]
      unfolding t by linarith
  qed
qed

lemma uint_number_of_int: "0 \<le> p \<Longrightarrow> p < 2 ^ 64 \<Longrightarrow> uint (word_of_int p :: number) = p"
  by (simp add: uint_word_of_int take_bit_eq_mod)

lemma uint_number_bounds: "0 \<le> uint (d :: number)" "uint (d :: number) < 2 ^ (11 + 52 + 1)"
  using uint_lt2p[of d] by simp_all

lemma decodeNumber_nonneg: "decodeNumber d = FFin s M E \<Longrightarrow> 0 \<le> M"
  unfolding decodeNumber_def by (rule decodeF_nonneg)

lemma float32Bits_bounds: "0 \<le> float32Bits d" "float32Bits d < 2 ^ 32"
  using encodeF_bounds[of "decodeNumber d" 23 8] decodeNumber_nonneg[of d]
  by (simp_all add: float32Bits_def)

lemma float64Bits_bounds: "0 \<le> float64Bits d" "float64Bits d < 2 ^ 64"
  using encodeF_bounds[of "decodeNumber d" 52 11] decodeNumber_nonneg[of d]
  by (simp_all add: float64Bits_def)

lemma numberOf_FNaN: "numberOf FNaN = NaN"
  by (simp add: numberOf_def encodeF_def NaN_def)

lemma numberOf_decodeNumber:
  assumes "isNumber d"
  shows "numberOf (decodeNumber d) = d"
proof (cases "decodeNumber d = FNaN")
  case True
  then show ?thesis using assms by (simp add: isNumber_def numberOf_FNaN)
next
  case False
  then have "encodeF 11 52 (decodeF 11 52 (uint d)) = uint d"
    using encode_decode[of "uint d" 11 52] uint_number_bounds[of d]
    by (simp add: decodeNumber_def)
  then show ?thesis by (simp add: numberOf_def decodeNumber_def)
qed

lemma float64_round_trip:
  assumes "isNumber d"
  shows "numberOfFloat64 (float64Bits d) = d"
proof (cases "decodeNumber d = FNaN")
  case True
  have "decodeF 11 52 (signBit 11 52 False + (2 ^ 11 - 1) * 2 ^ 52 + 2 ^ 51) = FNaN"
    using decodeF_fields[of "2 ^ 51" 52 "2 ^ 11 - 1" 11 False] by simp
  then show ?thesis
    using True assms
    by (simp add: numberOfFloat64_def float64Bits_def encodeF_def signBit_def isNumber_def
        numberOf_FNaN)
next
  case False
  then have "encodeF 11 52 (decodeF 11 52 (uint d)) = uint d"
    using encode_decode[of "uint d" 11 52] uint_number_bounds[of d]
    by (simp add: decodeNumber_def)
  then show ?thesis
    using numberOf_decodeNumber[OF assms]
    by (simp add: numberOfFloat64_def float64Bits_def decodeNumber_def)
qed

lemma float32_round_trip:
  assumes "isNumber d" "representable 8 23 (decodeNumber d)"
  shows "numberOfFloat32 (float32Bits d) = d"
proof -
  have id: "numberOf (decodeNumber d) = d" by (rule numberOf_decodeNumber[OF assms(1)])
  show ?thesis
  proof (cases "decodeNumber d")
    case FNaN
    have "decodeF 8 23 (signBit 8 23 False + (2 ^ 8 - 1) * 2 ^ 23 + 2 ^ 22) = FNaN"
      using decodeF_fields[of "2 ^ 22" 23 "2 ^ 8 - 1" 8 False] by simp
    then show ?thesis
      using id FNaN by (simp add: numberOfFloat32_def float32Bits_def encodeF_def signBit_def)
  next
    case (FInf s)
    have "decodeF 8 23 (signBit 8 23 s + (2 ^ 8 - 1) * 2 ^ 23 + 0) = FInf s"
      using decodeF_fields[of 0 23 "2 ^ 8 - 1" 8 s] by simp
    then show ?thesis
      using id FInf by (simp add: numberOfFloat32_def float32Bits_def encodeF_def)
  next
    case (FFin s M E)
    show ?thesis
    proof (cases "M = 0")
      case True
      have "decodeF 8 23 (signBit 8 23 s + 0 * 2 ^ 23 + 0) = FFin s 0 (emin 8 23)"
        using decodeF_fields[of 0 23 0 8 s] by simp
      then show ?thesis
        using id FFin True
        by (simp add: numberOfFloat32_def float32Bits_def encodeF_def numberOf_def roundF_def)
    next
      case False
      then have M: "0 < M" using decodeNumber_nonneg[OF FFin] by simp
      define q where "q = quantum 8 23 M E"
      have ex: "q \<le> E \<or> M mod 2 ^ nat (q - E) = 0" and rg: "q - emin 8 23 < 2 ^ 8 - 2"
        using assms(2) False by (simp_all add: representable_def FFin Let_def q_def)
      obtain M' where M': "0 < M'" "M' < 2 ^ (23 + 1)" "q = emin 8 23 \<or> 2 ^ 23 \<le> M'"
        "scaled M E M' q"
        using normal_form[OF M q_def ex] by blast
      have ge: "emin 8 23 \<le> q" by (simp add: q_def quantum_def)
      have "float32Bits d = signBit 8 23 s + roundF 8 23 M' q"
        using roundF_scaled[OF M M'(1,4)] by (simp add: float32Bits_def FFin encodeF_def)
      then have "decodeF 8 23 (float32Bits d) = FFin s M' q"
        using round_normal_form(2)[OF M'(1,2,3) ge rg] by simp
      then have "numberOfFloat32 (float32Bits d) = numberOf (FFin s M' q)"
        by (simp add: numberOfFloat32_def)
      also have "\<dots> = numberOf (FFin s M E)"
        using roundF_scaled[OF M M'(1,4)] by (simp add: numberOf_def encodeF_def)
      finally show ?thesis using id FFin by simp
    qed
  qed
qed

lemma toInteger_numberOfInt:
  assumes "\<bar>n\<bar> < 2 ^ 53"
  shows "toInteger (numberOfInt n) = n"
proof (cases "n = 0")
  case True
  have "decodeF 11 52 (signBit 11 52 False + 0 * 2 ^ 52 + 0) = FFin False 0 (emin 11 52)"
    using decodeF_fields[of 0 52 0 11 False] by simp
  then show ?thesis
    using True
    by (simp add: toInteger_def numberOfInt_def numberOf_def encodeF_def roundF_def
        decodeNumber_def signBit_def)
next
  case False
  define M where "M = \<bar>n\<bar>"
  define s where "s = (n < 0)"
  have M: "0 < M" using False by (simp add: M_def)
  define q where "q = quantum 11 52 M 0"
  have "bitLength M \<le> 53" using bitLength_le[OF M, of 53] assms by (simp add: M_def)
  then have q0: "q \<le> 0" "emin 11 52 \<le> q" by (simp_all add: q_def quantum_def emin_def)
  have rg: "q - emin 11 52 < 2 ^ 11 - 2" using q0 by (simp add: emin_def)
  obtain M' where M': "0 < M'" "M' < 2 ^ (52 + 1)" "q = emin 11 52 \<or> 2 ^ 52 \<le> M'"
    "scaled M 0 M' q"
    using normal_form[OF M q_def] q0(1) by blast
  let ?p = "signBit 11 52 s + roundF 11 52 M' q"
  have e: "encodeF 11 52 (FFin s M 0) = ?p"
    using roundF_scaled[OF M M'(1,4)] by (simp add: encodeF_def)
  have "0 \<le> ?p" "?p < 2 ^ 64"
    using encodeF_bounds[of "FFin s M 0" 52 11] M e by simp_all
  then have u: "uint (word_of_int ?p :: number) = ?p"
    by (rule uint_number_of_int)
  have "decodeNumber (numberOfInt n) = FFin s M' q"
    using round_normal_form(2)[OF M'(1,2,3) q0(2) rg, of s] e u
    by (simp add: decodeNumber_def numberOfInt_def numberOf_def M_def s_def)
  moreover have "M' = M * 2 ^ nat (- q)"
  proof -
    from M'(4) consider k where "M' = M * 2 ^ k" "q = 0 - int k"
      | k where "M = M' * 2 ^ k" "0 = q - int k"
      unfolding scaled_def by blast
    then show ?thesis
    proof cases
      case 1
      then show ?thesis by simp
    next
      case 2
      then have "k = 0" using q0(1) by simp
      then show ?thesis using 2 by simp
    qed
  qed
  ultimately show ?thesis
    using q0(1) by (auto simp: toInteger_def M_def s_def)
qed


lemma quantum_normal:
  assumes "0 < M" "M < 2 ^ (mb + 1)" "q = emin eb mb \<or> 2 ^ mb \<le> M" "emin eb mb \<le> q"
  shows "quantum eb mb M q = q"
proof -
  have bl: "bitLength M \<le> mb + 1" using bitLength_le[OF assms(1,2)] .
  show ?thesis
  proof (cases "q = emin eb mb")
    case True
    then show ?thesis using bl by (simp add: quantum_def)
  next
    case False
    then have "2 ^ mb \<le> M" using assms(3) by simp
    then have "mb < bitLength M" by (rule bitLength_ge)
    then have "bitLength M = mb + 1" using bl by simp
    then show ?thesis using assms(4) by (simp add: quantum_def)
  qed
qed

lemma quantum_scaled:
  assumes "0 < M" "0 < M'" "scaled M E M' E'"
  shows "quantum eb mb M' E' = quantum eb mb M E"
  using assms bitLength_mult[of M] bitLength_mult[of M']
  unfolding scaled_def quantum_def by auto

lemma decodeF_normal:
  assumes "decodeF eb mb w = FFin s M E" "2 \<le> eb"
  shows "0 \<le> M" "M < 2 ^ (mb + 1)" "E = emin eb mb \<or> 2 ^ mb \<le> M" "emin eb mb \<le> E"
    "E - emin eb mb < 2 ^ eb - 2"
proof -
  define e where "e = (w div 2 ^ mb) mod 2 ^ eb"
  define m where "m = w mod 2 ^ mb"
  have m: "0 \<le> m" "m < 2 ^ mb" by (simp_all add: m_def)
  have e: "0 \<le> e" "e < 2 ^ eb" by (simp_all add: e_def)
  have big: "(4::int) \<le> 2 ^ eb" using power_increasing[OF assms(2), of "2::int"] by simp
  have c: "(e = 0 \<and> M = m \<and> E = emin eb mb) \<or>
           (e \<noteq> 0 \<and> e \<noteq> 2 ^ eb - 1 \<and> M = 2 ^ mb + m \<and> E = emin eb mb + e - 1)"
    using assms(1) unfolding decodeF_def Let_def e_def[symmetric] m_def[symmetric]
    by (auto split: if_splits)
  show "0 \<le> M" using c m by auto
  show "M < 2 ^ (mb + 1)" using c m by auto
  show "E = emin eb mb \<or> 2 ^ mb \<le> M" using c m by auto
  show "emin eb mb \<le> E" using c e by auto
  show "E - emin eb mb < 2 ^ eb - 2" using c e big by auto
qed

lemma decodeNumber_numberOf:
  assumes "0 < M" "M < 2 ^ (52 + 1)" "q = emin 11 52 \<or> 2 ^ 52 \<le> M" "emin 11 52 \<le> q"
    "q - emin 11 52 < 2 ^ 11 - 2"
  shows "decodeNumber (numberOf (FFin s M q)) = FFin s M q"
proof -
  let ?p = "signBit 11 52 s + roundF 11 52 M q"
  have "0 \<le> ?p" "?p < 2 ^ 64"
    using encodeF_bounds[of "FFin s M q" 52 11] assms(1) by (simp_all add: encodeF_def)
  then have "uint (word_of_int ?p :: number) = ?p" by (rule uint_number_of_int)
  then show ?thesis
    using round_normal_form(2)[OF assms, of s]
    by (simp add: decodeNumber_def numberOf_def encodeF_def)
qed

lemma decodeNumber_zero: "decodeNumber (numberOf (FFin s 0 E)) = FFin s 0 (emin 11 52)"
proof -
  have "decodeF 11 52 (signBit 11 52 s + 0 * 2 ^ 52 + 0) = FFin s 0 (emin 11 52)"
    using decodeF_fields[of 0 52 0 11 s] by simp
  moreover have "uint (word_of_int (signBit 11 52 s) :: number) = signBit 11 52 s"
    by (intro uint_number_of_int) (simp_all add: signBit_def)
  ultimately show ?thesis
    by (simp add: decodeNumber_def numberOf_def encodeF_def roundF_def)
qed

lemma decodeNumber_FInf: "decodeNumber (numberOf (FInf s)) = FInf s"
proof -
  have "decodeF 11 52 (signBit 11 52 s + (2 ^ 11 - 1) * 2 ^ 52 + 0) = FInf s"
    using decodeF_fields[of 0 52 "2 ^ 11 - 1" 11 s] by simp
  moreover have "uint (word_of_int (signBit 11 52 s + (2 ^ 11 - 1) * 2 ^ 52) :: number)
                 = signBit 11 52 s + (2 ^ 11 - 1) * 2 ^ 52"
    by (intro uint_number_of_int) (simp_all add: signBit_def)
  ultimately show ?thesis
    by (simp add: decodeNumber_def numberOf_def encodeF_def)
qed

lemma decodeNumber_NaN: "decodeNumber NaN = FNaN"
proof -
  have "decodeF 11 52 (signBit 11 52 False + (2 ^ 11 - 1) * 2 ^ 52 + 2 ^ 51) = FNaN"
    using decodeF_fields[of "2 ^ 51" 52 "2 ^ 11 - 1" 11 False] by simp
  then show ?thesis by (simp add: decodeNumber_def NaN_def signBit_def)
qed

text \<open>Every binary32 value is a Number, and as a Number it is representable in binary32.\<close>

lemma numberOfFloat32_representable: "representable 8 23 (decodeNumber (numberOfFloat32 u))"
proof (cases "decodeF 8 23 u")
  case FNaN
  then show ?thesis
    by (simp add: numberOfFloat32_def numberOf_FNaN decodeNumber_NaN representable_def)
next
  case (FInf s)
  then show ?thesis
    by (simp add: numberOfFloat32_def decodeNumber_FInf representable_def)
next
  case (FFin s M E)
  note n = decodeF_normal[OF FFin]
  show ?thesis
  proof (cases "M = 0")
    case True
    then show ?thesis
      using FFin by (simp add: numberOfFloat32_def decodeNumber_zero representable_def)
  next
    case False
    then have M: "0 < M" using n(1) by simp
    define q where "q = quantum 11 52 M E"
    have bl: "0 < bitLength M" "bitLength M \<le> 24"
      using M bitLength_le[OF M, of 24] n(2) by (simp_all add: bitLength_pos)
    have E: "- 149 \<le> E" "E < 105" using n(4,5) by (simp_all add: emin_def)
    have q: "q = E + int (bitLength M) - 53" using bl E by (simp add: q_def quantum_def emin_def)
    have qE: "q \<le> E" using q bl by simp
    obtain M' where M': "0 < M'" "M' < 2 ^ (52 + 1)" "q = emin 11 52 \<or> 2 ^ 52 \<le> M'"
      "scaled M E M' q"
      using normal_form[OF M q_def] qE by blast
    have ge: "emin 11 52 \<le> q" "q - emin 11 52 < 2 ^ 11 - 2"
      using q bl E by (simp_all add: emin_def)
    have "numberOf (FFin s M E) = numberOf (FFin s M' q)"
      using roundF_scaled[OF M M'(1,4)] by (simp add: numberOf_def encodeF_def)
    then have d: "decodeNumber (numberOfFloat32 u) = FFin s M' q"
      using decodeNumber_numberOf[OF M'(1,2,3) ge] FFin by (simp add: numberOfFloat32_def)
    have q32: "quantum 8 23 M' q = E"
      using quantum_scaled[OF M M'(1,4)] quantum_normal[OF M n(2,3,4)] by simp
    have "E \<le> q \<or> M' mod 2 ^ nat (E - q) = 0"
    proof -
      from M'(4) consider k where "M' = M * 2 ^ k" "q = E - int k"
        | k where "M = M' * 2 ^ k" "E = q - int k"
        unfolding scaled_def by blast
      then show ?thesis
      proof cases
        case 1
        then have "nat (E - q) = k" by simp
        then show ?thesis using 1 by simp
      next
        case 2
        then show ?thesis by simp
      qed
    qed
    then show ?thesis
      using d M'(1) q32 n(5) by (simp add: representable_def Let_def)
  qed
qed

lemma float32_exact_iff:
  assumes "isNumber d"
  shows "numberOfFloat32 (float32Bits d) = d \<longleftrightarrow> representable 8 23 (decodeNumber d)"
  using float32_round_trip[OF assms] numberOfFloat32_representable[of "float32Bits d"]
  by auto

lemma numberOfInt_toInteger:
  assumes "isInteger d"
  shows "numberOfInt (toInteger d) = d"
proof -
  obtain s M E where d: "decodeNumber d = FFin s M E"
    and z: "M \<noteq> 0 \<or> \<not> s" and i: "0 \<le> E \<or> M mod 2 ^ nat (- E) = 0"
    using assms by (auto simp: isInteger_def split: fval.splits)
  have "isNumber d" using d by (simp add: isNumber_def)
  then have id: "numberOf (FFin s M E) = d" using numberOf_decodeNumber[of d] d by simp
  show ?thesis
  proof (cases "M = 0")
    case True
    then have "toInteger d = 0" "\<not> s" using d z by (simp_all add: toInteger_def)
    then show ?thesis
      using id True by (simp add: numberOfInt_def numberOf_def encodeF_def roundF_def)
  next
    case False
    then have M: "0 < M" using decodeNumber_nonneg[OF d] by simp
    define N where "N = (if 0 \<le> E then M * 2 ^ nat E else M div 2 ^ nat (- E))"
    have sc: "scaled M E N 0"
    proof (cases "0 \<le> E")
      case True
      then have "N = M * 2 ^ nat E \<and> 0 = E - int (nat E)" by (simp add: N_def)
      then show ?thesis unfolding scaled_def by blast
    next
      case False
      then have "M mod 2 ^ nat (- E) = 0" using i by simp
      then have "M = N * 2 ^ nat (- E)"
        using False div_mult_mod_eq[of M "2 ^ nat (- E)"] by (simp add: N_def)
      moreover have "E = 0 - int (nat (- E))" using False by simp
      ultimately show ?thesis unfolding scaled_def by blast
    qed
    have N: "0 < N" using sc M unfolding scaled_def by (auto simp: zero_less_mult_iff)
    have t: "toInteger d = (if s then - 1 else 1) * N" by (simp add: toInteger_def d N_def)
    then have "(toInteger d < 0) = s" "\<bar>toInteger d\<bar> = N" using N by auto
    then have "numberOfInt (toInteger d) = numberOf (FFin s N 0)" by (simp add: numberOfInt_def)
    also have "\<dots> = numberOf (FFin s M E)"
      using roundF_scaled[OF M N sc] by (simp add: numberOf_def encodeF_def)
    finally show ?thesis using id by simp
  qed
qed

lemma isInteger_numberOfInt:
  assumes "\<bar>n\<bar> < 2 ^ 53"
  shows "isInteger (numberOfInt n)"
proof (cases "n = 0")
  case True
  then show ?thesis by (simp add: isInteger_def numberOfInt_def decodeNumber_zero)
next
  case False
  define M where "M = \<bar>n\<bar>"
  define s where "s = (n < 0)"
  have M: "0 < M" using False by (simp add: M_def)
  define q where "q = quantum 11 52 M 0"
  have "bitLength M \<le> 53" using bitLength_le[OF M, of 53] assms by (simp add: M_def)
  then have q0: "q \<le> 0" "emin 11 52 \<le> q" by (simp_all add: q_def quantum_def emin_def)
  have rg: "q - emin 11 52 < 2 ^ 11 - 2" using q0 by (simp add: emin_def)
  obtain M' where M': "0 < M'" "M' < 2 ^ (52 + 1)" "q = emin 11 52 \<or> 2 ^ 52 \<le> M'"
    "scaled M 0 M' q"
    using normal_form[OF M q_def] q0(1) by blast
  have "numberOfInt n = numberOf (FFin s M' q)"
    using roundF_scaled[OF M M'(1,4)]
    by (simp add: numberOfInt_def numberOf_def encodeF_def M_def s_def)
  then have d: "decodeNumber (numberOfInt n) = FFin s M' q"
    using decodeNumber_numberOf[OF M'(1,2,3) q0(2) rg] by simp
  have "M' = M * 2 ^ nat (- q)"
  proof -
    from M'(4) consider k where "M' = M * 2 ^ k" "q = 0 - int k"
      | k where "M = M' * 2 ^ k" "0 = q - int k"
      unfolding scaled_def by blast
    then show ?thesis
    proof cases
      case 1
      then show ?thesis by simp
    next
      case 2
      then have "k = 0" using q0(1) by simp
      then show ?thesis using 2 by simp
    qed
  qed
  then show ?thesis using d M'(1) M by (simp add: isInteger_def)
qed

subsection \<open>Every serializer is a codec on its valid values\<close>

lemma bindR_unfold: "bindR r k = (\<lambda>b. case r b of Inl e \<Rightarrow> Inl e | Inr (x, b1) \<Rightarrow> k x b1)"
  by (simp add: fun_eq_iff bindR_def)

lemma codec_prim:
  assumes "codec w r x"
    and "\<And>b. sw b = w b"
    and "\<And>b. sr b = bindR r (\<lambda>x b. Inr (f x, b)) b"
    and "f x = v"
  shows "codec sw sr v"
proof -
  have "sw = w" "sr = bindR r (\<lambda>x b. Inr (f x, b))"
    using assms(2,3) by (simp_all add: fun_eq_iff)
  then show ?thesis using codec_map[OF assms(1), of f] assms(4) by simp
qed

text \<open>The float classes on every Number, and the optional class on \<open>null\<close>.\<close>

lemma codec_Float32:
  "codec (serialize Float32Serializer (VNum d)) (deserialize Float32Serializer)
     (VNum (numberOfFloat32 (float32Bits d)))"
proof -
  have "take_bit (8 * 4) (float32Bits d) = float32Bits d"
    using float32Bits_bounds[of d] by (intro take_bit_unsigned) simp_all
  then show ?thesis
    by (intro codec_prim[OF codec_fixed[of 4 "float32Bits d"],
          where f = "\<lambda>u. VNum (numberOfFloat32 u)"])
       (simp_all add: bindR_def split: sum.splits)
qed

lemma codec_Float64:
  "codec (serialize Float64Serializer (VNum d)) (deserialize Float64Serializer)
     (VNum (numberOfFloat64 (float64Bits d)))"
proof -
  have "take_bit (8 * 8) (float64Bits d) = float64Bits d"
    using float64Bits_bounds[of d] by (intro take_bit_unsigned) simp_all
  then show ?thesis
    by (intro codec_prim[OF codec_fixed[of 8 "float64Bits d"],
          where f = "\<lambda>u. VNum (numberOfFloat64 u)"])
       (simp_all add: bindR_def split: sum.splits)
qed

lemma codec_Optional_null:
  "codec (serialize (OptionalSerializer s) VNull) (deserialize (OptionalSerializer s)) VUndefined"
proof -
  let ?k = "\<lambda>isDefined b1. if isDefined then deserialize s b1 else Inr (VUndefined, b1)"
  have d: "deserialize (OptionalSerializer s) = bindR Boolean_deserialize ?k"
    by (simp add: bindR_unfold fun_eq_iff)
  have w: "serialize (OptionalSerializer s) VNull
           = bindW (\<lambda>b. Inr (Boolean_serialize False b)) Inr"
    by (simp add: bindW_def fun_eq_iff)
  have "codec Inr (?k False) VUndefined"
    using codec_return[of VUndefined] by simp
  then show ?thesis
    unfolding w d
    using codec_bind[of _ Boolean_deserialize False Inr ?k VUndefined] codec_Boolean[of False]
    by blast
qed

lemma codec_serializer: "valid s v \<Longrightarrow> codec (serialize s v) (deserialize s) v"
proof (induction s arbitrary: v)
  case BooleanSerializer
  then obtain x where v: "v = VBool x" by (cases v) simp_all
  show ?case unfolding v
    by (rule codec_prim[OF codec_Boolean[of x], where f = VBool])
       (simp_all add: bindR_def split: sum.splits)
next
  case Int8Serializer
  then obtain d where v: "v = VNum d" and i: "isInteger d"
    and r: "- (2 ^ 7) \<le> toInteger d" "toInteger d < 2 ^ 7"
    by (cases v) simp_all
  show ?case unfolding v
    by (rule codec_prim[OF codec_fixed[of 1 "toInteger d"], where f = "\<lambda>u. VNum (numberOfInt (signedOf 8 u))"])
       (use r signedOf_take_bit[of 8 "toInteger d"] numberOfInt_toInteger[OF i] in
         \<open>simp_all add: bindR_def split: sum.splits\<close>)
next
  case Int16Serializer
  then obtain d where v: "v = VNum d" and i: "isInteger d"
    and r: "- (2 ^ 15) \<le> toInteger d" "toInteger d < 2 ^ 15"
    by (cases v) simp_all
  show ?case unfolding v
    by (rule codec_prim[OF codec_fixed[of 2 "toInteger d"], where f = "\<lambda>u. VNum (numberOfInt (signedOf 16 u))"])
       (use r signedOf_take_bit[of 16 "toInteger d"] numberOfInt_toInteger[OF i] in
         \<open>simp_all add: bindR_def split: sum.splits\<close>)
next
  case Int32Serializer
  then obtain d where v: "v = VNum d" and i: "isInteger d"
    and r: "- (2 ^ 31) \<le> toInteger d" "toInteger d < 2 ^ 31"
    by (cases v) simp_all
  show ?case unfolding v
    by (rule codec_prim[OF codec_fixed[of 4 "toInteger d"], where f = "\<lambda>u. VNum (numberOfInt (signedOf 32 u))"])
       (use r signedOf_take_bit[of 32 "toInteger d"] numberOfInt_toInteger[OF i] in
         \<open>simp_all add: bindR_def split: sum.splits\<close>)
next
  case UInt8Serializer
  then obtain d where v: "v = VNum d" and i: "isInteger d"
    and r: "0 \<le> toInteger d" "toInteger d < 2 ^ 8"
    by (cases v) simp_all
  show ?case unfolding v
    by (rule codec_prim[OF codec_fixed[of 1 "toInteger d"], where f = "\<lambda>u. VNum (numberOfInt u)"])
       (use r take_bit_unsigned[of "toInteger d" 8] numberOfInt_toInteger[OF i] in
         \<open>simp_all add: bindR_def split: sum.splits\<close>)
next
  case UInt16Serializer
  then obtain d where v: "v = VNum d" and i: "isInteger d"
    and r: "0 \<le> toInteger d" "toInteger d < 2 ^ 16"
    by (cases v) simp_all
  show ?case unfolding v
    by (rule codec_prim[OF codec_fixed[of 2 "toInteger d"], where f = "\<lambda>u. VNum (numberOfInt u)"])
       (use r take_bit_unsigned[of "toInteger d" 16] numberOfInt_toInteger[OF i] in
         \<open>simp_all add: bindR_def split: sum.splits\<close>)
next
  case UInt32Serializer
  then obtain d where v: "v = VNum d" and i: "isInteger d"
    and r: "0 \<le> toInteger d" "toInteger d < 2 ^ 32"
    by (cases v) simp_all
  show ?case unfolding v
    by (rule codec_prim[OF codec_fixed[of 4 "toInteger d"], where f = "\<lambda>u. VNum (numberOfInt u)"])
       (use r take_bit_unsigned[of "toInteger d" 32] numberOfInt_toInteger[OF i] in
         \<open>simp_all add: bindR_def split: sum.splits\<close>)
next
  case Float32Serializer
  then obtain d where v: "v = VNum d" and n: "isNumber d"
    and p: "representable 8 23 (decodeNumber d)"
    by (cases v) simp_all
  show ?case unfolding v using codec_Float32[of d] by (simp only: float32_round_trip[OF n p])
next
  case Float64Serializer
  then obtain d where v: "v = VNum d" and n: "isNumber d" by (cases v) simp_all
  show ?case unfolding v using codec_Float64[of d] by (simp only: float64_round_trip[OF n])
next
  case VarUInt32Serializer
  then obtain d where v: "v = VNum d" and i: "isInteger d"
    and r: "0 \<le> toInteger d" "toInteger d < 2 ^ 32"
    by (cases v) simp_all
  show ?case unfolding v
    by (rule codec_prim[OF codec_VarUInt32[OF r], where f = "\<lambda>n. VNum (numberOfInt n)"])
       (use numberOfInt_toInteger[OF i] in \<open>simp_all add: bindR_def split: sum.splits\<close>)
next
  case VarInt32Serializer
  then obtain d where v: "v = VNum d" and i: "isInteger d"
    and r: "- (2 ^ 31) \<le> toInteger d" "toInteger d < 2 ^ 31"
    by (cases v) simp_all
  show ?case unfolding v
    by (rule codec_prim[OF codec_VarInt32[OF r], where f = "\<lambda>n. VNum (numberOfInt n)"])
       (use numberOfInt_toInteger[OF i] in \<open>simp_all add: bindR_def split: sum.splits\<close>)
next
  case VarUInt64Serializer
  then obtain n where v: "v = VBigInt n" and r: "0 \<le> n" "n < 2 ^ 64"
    by (cases v) simp_all
  show ?case unfolding v
    by (rule codec_prim[OF codec_VarUInt64[OF r], where f = VBigInt])
       (simp_all add: bindR_def split: sum.splits)
next
  case VarInt64Serializer
  then obtain n where v: "v = VBigInt n" and r: "- (2 ^ 63) \<le> n" "n < 2 ^ 63"
    by (cases v) simp_all
  show ?case unfolding v
    by (rule codec_prim[OF codec_VarInt64[OF r], where f = VBigInt])
       (simp_all add: bindR_def split: sum.splits)
next
  case StringSerializer
  then obtain t where v: "v = VStr t" and r: "length t < 2 ^ 32"
    by (cases v) simp_all
  show ?case unfolding v
    by (rule codec_prim[OF codec_String[OF r], where f = VStr])
       (simp_all add: bindR_def split: sum.splits)
next
  case (ArraySerializer eo)
  from ArraySerializer.prems obtain items s where v: "v = VArr items" and eo: "eo = Some s"
    and r: "length items < 2 ^ 32" "list_all (valid s) items"
    by (cases v; cases eo) simp_all
  let ?body = "\<lambda>result. bindR (deserialize s) (\<lambda>x b2. Inr (result @ [x], b2))"
  let ?k = "\<lambda>len. bindR (loopM (nat len) ?body []) (\<lambda>result b2. Inr (VArr result, b2))"
  have w: "serialize (ArraySerializer eo) (VArr items)
           = bindW (\<lambda>b. Inr (VarUInt32_serialize (int (length items)) b))
               (forEachM (serialize s) items)"
    by (simp add: eo bindW_def fun_eq_iff)
  have d: "deserialize (ArraySerializer eo) = bindR VarUInt32_deserialize ?k"
    by (auto simp: eo bindR_unfold fun_eq_iff split: sum.splits)
  have item: "codec (serialize s x) (?body acc) (acc @ [x])" if "x \<in> set items" for x acc
    using codec_map[OF ArraySerializer.IH[of s x], of "\<lambda>x. acc @ [x]"] that r(2) eo
    by (simp add: list_all_iff)
  have "codec (forEachM (serialize s) items) (loopM (length items) ?body [])
          (foldl (\<lambda>r x. r @ [x]) [] items)"
    by (rule codec_loop) (rule item)
  then have "codec (forEachM (serialize s) items) (?k (int (length items))) (VArr items)"
    using codec_map[of "forEachM (serialize s) items" "loopM (length items) ?body []" items VArr]
    by (simp add: foldl_snoc_list)
  moreover have "codec (\<lambda>b. Inr (VarUInt32_serialize (int (length items)) b))
                   VarUInt32_deserialize (int (length items))"
    using r(1) by (intro codec_VarUInt32) simp_all
  ultimately show ?case
    unfolding v w d
    using codec_bind[of _ VarUInt32_deserialize "int (length items)" _ ?k "VArr items"]
    by blast
next
  case (ObjectSerializer sch)
  from ObjectSerializer.prems obtain prs where v: "v = VObj prs"
    and dist: "distinct (map fst sch)"
    and np: "protoKey \<notin> set (map fst sch)"
    and all: "list_all2 (\<lambda>fld pr. fst pr = fst fld \<and>
                 (case snd fld of None \<Rightarrow> False | Some s \<Rightarrow> valid s (snd pr))) sch prs"
    by (cases v) simp_all
  let ?f = "\<lambda>fld b. case snd fld of None \<Rightarrow> Inl TypeError
                    | Some s \<Rightarrow> serialize s (getProp prs (fst fld)) b"
  let ?body = "\<lambda>fld result b. case snd fld of None \<Rightarrow> Inr (result, b)
                    | Some s \<Rightarrow> (case deserialize s b of Inl e \<Rightarrow> Inl e
                        | Inr (x, b1) \<Rightarrow> Inr (objSet result (fst fld) x, b1))"
  have w: "serialize (ObjectSerializer sch) (VObj prs) = forEachM ?f sch"
    by (simp add: fun_eq_iff)
  have d: "deserialize (ObjectSerializer sch)
           = bindR (foldM ?body sch []) (\<lambda>result b1. Inr (VObj result, b1))"
    by (simp add: bindR_unfold fun_eq_iff)
  have keys: "map fst prs = map fst sch"
    using all by (induction sch prs rule: list_all2_induct) simp_all
  have look: "getProp prs (fst pr) = snd pr" if "pr \<in> set prs" for pr
  proof -
    have "map_of prs (fst pr) = Some (snd pr)"
      using that dist keys by (intro map_of_is_SomeI) simp_all
    then show ?thesis by (simp add: getProp_def)
  qed
  have all': "list_all2 (\<lambda>fld pr. fst pr = fst fld \<and>
                 (\<exists>s. snd fld = Some s \<and> codec (serialize s (snd pr)) (deserialize s) (snd pr)))
               sch prs"
  proof (rule list.rel_mono_strong[OF all])
    fix fld pr
    assume a: "fld \<in> set sch" "pr \<in> set prs"
      "fst pr = fst fld \<and> (case snd fld of None \<Rightarrow> False | Some s \<Rightarrow> valid s (snd pr))"
    from a(3) obtain s where s: "snd fld = Some s" "valid s (snd pr)"
      by (cases "snd fld") simp_all
    have "codec (serialize s (snd pr)) (deserialize s) (snd pr)"
      using ObjectSerializer.IH[of fld "snd fld" s "snd pr"] a(1) s
      by (cases fld) simp
    then show "fst pr = fst fld \<and>
       (\<exists>s. snd fld = Some s \<and> codec (serialize s (snd pr)) (deserialize s) (snd pr))"
      using a(3) s(1) by simp
  qed
  have "codec (forEachM ?f sch) (foldM ?body sch []) ([] @ prs)"
    by (rule codec_fields[OF all' dist _ look]) (use np in simp_all)
  then show ?case
    unfolding v w d
    using codec_map[of "forEachM ?f sch" "foldM ?body sch []" prs VObj] by simp
next
  case (TupleSerializer ss)
  from TupleSerializer.prems obtain items where v: "v = VArr items"
    and all: "list_all2 (\<lambda>so x. case so of None \<Rightarrow> False | Some s \<Rightarrow> valid s x) ss items"
    by (cases v) simp_all
  let ?f = "\<lambda>p b. case snd p of None \<Rightarrow> Inl TypeError
                    | Some s \<Rightarrow> serialize s (getIndex items (fst p)) b"
  let ?body = "\<lambda>so result b. case so of None \<Rightarrow> Inr (result, b)
                    | Some s \<Rightarrow> (case deserialize s b of Inl e \<Rightarrow> Inl e
                        | Inr (x, b1) \<Rightarrow> Inr (result @ [x], b1))"
  have w: "serialize (TupleSerializer ss) (VArr items) = forEachM ?f (zip [0..<0 + length ss] ss)"
    by (simp add: fun_eq_iff)
  have d: "deserialize (TupleSerializer ss)
           = bindR (foldM ?body ss []) (\<lambda>result b1. Inr (VArr result, b1))"
    by (simp add: bindR_unfold fun_eq_iff)
  have look: "getIndex items (0 + i) = items ! i" if "i < length items" for i
    using that by (simp add: getIndex_def)
  have all': "list_all2 (\<lambda>so x. \<exists>s. so = Some s \<and> codec (serialize s x) (deserialize s) x)
               ss items"
  proof (rule list.rel_mono_strong[OF all])
    fix so x
    assume a: "so \<in> set ss" "x \<in> set items"
      "case so of None \<Rightarrow> False | Some s \<Rightarrow> valid s x"
    from a(3) obtain s where s: "so = Some s" "valid s x" by (cases so) simp_all
    have "codec (serialize s x) (deserialize s) x"
      using TupleSerializer.IH[of so s x] a(1) s by simp
    then show "\<exists>s. so = Some s \<and> codec (serialize s x) (deserialize s) x"
      using s(1) by simp
  qed
  have "codec (forEachM ?f (zip [0..<0 + length ss] ss)) (foldM ?body ss []) ([] @ items)"
    by (rule codec_positions[OF all' look])
  then show ?case
    unfolding v w d
    using codec_map[of "forEachM ?f (zip [0..<0 + length ss] ss)" "foldM ?body ss []" items VArr]
    by simp
next
  case (OptionalSerializer s)
  let ?k = "\<lambda>isDefined b1. if isDefined then deserialize s b1 else Inr (VUndefined, b1)"
  have d: "deserialize (OptionalSerializer s) = bindR Boolean_deserialize ?k"
    by (simp add: bindR_unfold fun_eq_iff)
  show ?case
  proof (cases "v = VUndefined")
    case True
    have w: "serialize (OptionalSerializer s) VUndefined
             = bindW (\<lambda>b. Inr (Boolean_serialize False b)) Inr"
      by (simp add: bindW_def fun_eq_iff)
    have "codec Inr (?k False) VUndefined"
      using codec_return[of VUndefined] by simp
    then show ?thesis
      unfolding True w d
      using codec_bind[of _ Boolean_deserialize False Inr ?k VUndefined] codec_Boolean[of False]
      by blast
  next
    case False
    then have val: "valid s v" using OptionalSerializer.prems by simp
    then have nn: "v \<noteq> VNull" using valid_not_null[of s] by auto
    have w: "serialize (OptionalSerializer s) v
             = bindW (\<lambda>b. Inr (Boolean_serialize True b)) (serialize s v)"
      using False nn by (simp add: bindW_def fun_eq_iff)
    have "codec (serialize s v) (?k True) v"
      using OptionalSerializer.IH[OF val] by (simp add: fun_eq_iff cong: if_cong)
    then show ?thesis
      unfolding w d
      using codec_bind[of _ Boolean_deserialize True "serialize s v" ?k v] codec_Boolean[of True]
      by blast
  qed
next
  case (MapSerializer ks vs)
  from MapSerializer.prems obtain es where v: "v = VMap es"
    and r: "length es < 2 ^ 32"
      "list_all (\<lambda>e. valid ks (fst e) \<and> valid vs (snd e)) es"
      "distinctKeys (map fst es)"
    by (cases v) simp_all
  let ?f = "\<lambda>e. bindW (serialize ks (fst e)) (serialize vs (snd e))"
  let ?body = "\<lambda>result. bindR (deserialize ks)
                 (\<lambda>key. bindR (deserialize vs) (\<lambda>val b3. Inr (mapSet result key val, b3)))"
  let ?k = "\<lambda>len. bindR (loopM (nat len) ?body []) (\<lambda>result b2. Inr (VMap result, b2))"
  have w: "serialize (MapSerializer ks vs) (VMap es)
           = bindW (\<lambda>b. Inr (VarUInt32_serialize (int (length es)) b)) (forEachM ?f es)"
    by (simp add: bindW_def[abs_def] fun_eq_iff)
  have d: "deserialize (MapSerializer ks vs) = bindR VarUInt32_deserialize ?k"
    by (simp add: bindR_unfold fun_eq_iff)
  have item: "codec (?f e) (?body acc) (mapSet acc (fst e) (snd e))" if "e \<in> set es" for e acc
  proof -
    have kv: "valid ks (fst e)" "valid vs (snd e)"
      using that r(2) by (simp_all add: list_all_iff)
    have 1: "codec (serialize ks (fst e)) (deserialize ks) (fst e)"
      by (rule MapSerializer.IH(1)[OF kv(1)])
    have 2: "codec (serialize vs (snd e))
               (bindR (deserialize vs) (\<lambda>val b3. Inr (mapSet acc (fst e) val, b3)))
               (mapSet acc (fst e) (snd e))"
      using codec_map[OF MapSerializer.IH(2)[OF kv(2)], of "\<lambda>val. mapSet acc (fst e) val"]
      by simp
    show ?thesis
      using codec_bind[of "serialize ks (fst e)" "deserialize ks" "fst e" "serialize vs (snd e)"
          "\<lambda>key. bindR (deserialize vs) (\<lambda>val b3. Inr (mapSet acc key val, b3))"
          "mapSet acc (fst e) (snd e)"] 1 2
      by simp
  qed
  have "codec (forEachM ?f es) (loopM (length es) ?body [])
          (foldl (\<lambda>r e. mapSet r (fst e) (snd e)) [] es)"
    by (rule codec_loop) (rule item)
  then have "codec (forEachM ?f es) (?k (int (length es))) (VMap es)"
    using codec_map[of "forEachM ?f es" "loopM (length es) ?body []" es VMap]
      foldl_mapSet[OF r(3), of "[]"]
    by simp
  moreover have "codec (\<lambda>b. Inr (VarUInt32_serialize (int (length es)) b))
                   VarUInt32_deserialize (int (length es))"
    using r(1) by (intro codec_VarUInt32) simp_all
  ultimately show ?case
    unfolding v w d
    using codec_bind[of _ VarUInt32_deserialize "int (length es)" _ ?k "VMap es"]
    by blast
next
  case (SetSerializer s)
  from SetSerializer.prems obtain items where v: "v = VSet items"
    and r: "length items < 2 ^ 32" "list_all (valid s) items" "distinctKeys items"
    by (cases v) simp_all
  let ?body = "\<lambda>result. bindR (deserialize s) (\<lambda>x b2. Inr (setAdd result x, b2))"
  let ?k = "\<lambda>len. bindR (loopM (nat len) ?body []) (\<lambda>result b2. Inr (VSet result, b2))"
  have w: "serialize (SetSerializer s) (VSet items)
           = bindW (\<lambda>b. Inr (VarUInt32_serialize (int (length items)) b))
               (forEachM (serialize s) items)"
    by (simp add: bindW_def fun_eq_iff)
  have d: "deserialize (SetSerializer s) = bindR VarUInt32_deserialize ?k"
    by (simp add: bindR_unfold fun_eq_iff)
  have item: "codec (serialize s x) (?body acc) (setAdd acc x)" if "x \<in> set items" for x acc
    using codec_map[OF SetSerializer.IH[of x], of "\<lambda>x. setAdd acc x"] that r(2)
    by (simp add: list_all_iff)
  have "codec (forEachM (serialize s) items) (loopM (length items) ?body [])
          (foldl setAdd [] items)"
    by (rule codec_loop) (rule item)
  then have "codec (forEachM (serialize s) items) (?k (int (length items))) (VSet items)"
    using codec_map[of "forEachM (serialize s) items" "loopM (length items) ?body []" items VSet]
      foldl_setAdd[OF r(3), of "[]"]
    by simp
  moreover have "codec (\<lambda>b. Inr (VarUInt32_serialize (int (length items)) b))
                   VarUInt32_deserialize (int (length items))"
    using r(1) by (intro codec_VarUInt32) simp_all
  ultimately show ?case
    unfolding v w d
    using codec_bind[of _ VarUInt32_deserialize "int (length items)" _ ?k "VSet items"]
    by blast
qed

subsection \<open>Round trip and truncation\<close>

lemma fromBytes_props:
  "bytes (fromBytes p) = p" "writePos (fromBytes p) = length p" "readPos (fromBytes p) = 0"
  by (simp_all add: fromBytes_def resetRead_def writeBytes_def allocate_def ensureCapacity_def
      newByteBuffer_def Let_def)

lemma fromBytes_readable: "readable (fromBytes p)" "unread (fromBytes p) = p"
  by (simp_all add: readable_def wfBuffer_def unread_def toUint8Array_def fromBytes_props)

lemma codec_round_trip:
  assumes "codec w r x" "wfBuffer b" "readPos b = writePos b"
  shows "\<exists>b1 b2. w b = Inr b1 \<and> r b1 = Inr (x, b2) \<and> readPos b2 = writePos b2"
proof -
  obtain bs where bs: "appends w bs" "reads r bs x"
    using assms(1) unfolding codec_def by blast
  obtain b1 where b1: "w b = Inr b1" "wfBuffer b1" "readPos b1 = readPos b"
    "toUint8Array b1 = toUint8Array b @ bs"
    using bs(1) assms(2) unfolding appends_def by blast
  have l: "length (toUint8Array b) = writePos b" "length (toUint8Array b1) = writePos b1"
    using assms(2) b1(2) by (simp_all add: toUint8Array_def wfBuffer_def)
  then have wp: "writePos b1 = writePos b + length bs" using b1(4) by simp
  have "unread b1 = bs @ []"
    using b1(3,4) assms(3) l(1) by (simp add: unread_def)
  moreover have "readable b1"
    using b1(2,3) assms(3) wp by (simp add: readable_def)
  ultimately have "r b1 = Inr (x, consumed (length bs) b1)"
    using bs(2) unfolding reads_def by blast
  moreover have "readPos (consumed (length bs) b1) = writePos (consumed (length bs) b1)"
    using wp b1(3) assms(3) by (simp add: consumed_def)
  ultimately show ?thesis using b1(1) by blast
qed

lemma round_trip:
  assumes "valid s v" "wfBuffer b" "readPos b = writePos b"
  shows "\<exists>b1 b2. serialize s v b = Inr b1 \<and> deserialize s b1 = Inr (v, b2) \<and>
           readPos b2 = writePos b2"
  by (rule codec_round_trip[OF codec_serializer[OF assms(1)] assms(2,3)])

text \<open>Every integer of the range of a class is a value of the class.\<close>

lemma valid_integer:
  assumes "\<bar>n\<bar> < 2 ^ 53"
  shows "valid Int8Serializer (VNum (numberOfInt n)) \<longleftrightarrow> - (2 ^ 7) \<le> n \<and> n < 2 ^ 7"
    and "valid Int16Serializer (VNum (numberOfInt n)) \<longleftrightarrow> - (2 ^ 15) \<le> n \<and> n < 2 ^ 15"
    and "valid Int32Serializer (VNum (numberOfInt n)) \<longleftrightarrow> - (2 ^ 31) \<le> n \<and> n < 2 ^ 31"
    and "valid UInt8Serializer (VNum (numberOfInt n)) \<longleftrightarrow> 0 \<le> n \<and> n < 2 ^ 8"
    and "valid UInt16Serializer (VNum (numberOfInt n)) \<longleftrightarrow> 0 \<le> n \<and> n < 2 ^ 16"
    and "valid UInt32Serializer (VNum (numberOfInt n)) \<longleftrightarrow> 0 \<le> n \<and> n < 2 ^ 32"
    and "valid VarUInt32Serializer (VNum (numberOfInt n)) \<longleftrightarrow> 0 \<le> n \<and> n < 2 ^ 32"
    and "valid VarInt32Serializer (VNum (numberOfInt n)) \<longleftrightarrow> - (2 ^ 31) \<le> n \<and> n < 2 ^ 31"
  using isInteger_numberOfInt[OF assms] toInteger_numberOfInt[OF assms] by simp_all

lemma truncated_fails:
  assumes "valid s v" "serialize s v (newByteBuffer n) = Inr b1" "k < writePos b1"
  shows "\<exists>e. deserialize s (fromBytes (take k (toUint8Array b1))) = Inl e"
proof -
  obtain bs where bs: "appends (serialize s v) bs" "failsShort (deserialize s) bs"
    using codec_serializer[OF assms(1)] unfolding codec_def by blast
  have "wfBuffer b1 \<and> toUint8Array b1 = toUint8Array (newByteBuffer n) @ bs"
    using bs(1) assms(2) wfBuffer_new[of n] unfolding appends_def by fastforce
  then have t: "toUint8Array b1 = bs" "length bs = writePos b1"
    by (auto simp: toUint8Array_def newByteBuffer_def wfBuffer_def)
  have "drop k bs \<noteq> []" using assms(3) t(2) by simp
  moreover have "unread (fromBytes (take k bs)) @ drop k bs = bs"
    by (simp add: fromBytes_readable)
  ultimately show ?thesis
    using bs(2) fromBytes_readable(1)[of "take k bs"] t(1) unfolding failsShort_def by blast
qed

text \<open>What the listener does with a message: the payload is serialized, encoded into
  fragments, decoded from them and deserialized.  The zero byte that an odd payload gains
  on the way is left unread.\<close>

lemma toUint8Array_new: "toUint8Array (newByteBuffer n) = []"
  by (simp add: toUint8Array_def newByteBuffer_def)

lemma decode_encode_buffer:
  "decode (encode b1 m) = resetRead (writeUnits (pairUp (toUint8Array b1)) (newByteBuffer 256))"
  using decodeLoop_encode[of b1 m "newByteBuffer 256"]
  by (cases "encode b1 m") (auto simp: decode_def Let_def)

lemma transport_round_trip:
  assumes "valid s v" "serialize s v (newByteBuffer n) = Inr b1"
  shows "\<exists>b2. deserialize s (decode (encode b1 m)) = Inr (v, b2)"
proof -
  obtain bs where bs: "appends (serialize s v) bs" "reads (deserialize s) bs v"
    using codec_serializer[OF assms(1)] unfolding codec_def by blast
  have t: "toUint8Array b1 = bs"
    using bs(1) assms(2) wfBuffer_new[of n] unfolding appends_def
    by (fastforce simp: toUint8Array_new)
  let ?d = "decode (encode b1 m)"
  let ?w = "writeUnits (pairUp bs) (newByteBuffer 256)"
  have d: "?d = resetRead ?w" using decode_encode_buffer[of b1 m] t by simp
  have w: "wfBuffer ?w" by (rule wfBuffer_writeUnits[OF wfBuffer_new])
  have u: "toUint8Array ?w = padEven bs"
    using toUint8Array_writeUnits[OF wfBuffer_new, of "pairUp bs" 256]
    by (simp add: toUint8Array_new pairUp_bytes)
  have "readable ?d"
    using w by (simp add: d readable_def wfBuffer_def resetRead_def)
  moreover have "unread ?d = bs @ (if odd (length bs) then [0] else [])"
    using u by (simp add: d unread_def resetRead_def toUint8Array_def padEven_def)
  ultimately have "deserialize s ?d = Inr (v, consumed (length bs) ?d)"
    using bs(2) unfolding reads_def by blast
  then show ?thesis by blast
qed

lemma loadBE_underflow_error:
  "int n > available b \<Longrightarrow> loadBE n b = Inl (BufferUnderflow n (available b))"
  by (simp add: loadBE_def advance_def)

lemma VarUInt32_underflow_error:
  "available b \<le> 0 \<Longrightarrow> VarUInt32_deserialize b = Inl (VarUInt32Underflow 0)"
  by (simp add: VarUInt32_deserialize_def varUInt32Read.simps[of 0])

lemma foldM_skip:
  assumes "\<And>r b. body y r b = Inr (r, b)"
  shows "foldM body (xs @ y # ys) acc b = foldM body (xs @ ys) acc b"
  by (induction xs arbitrary: acc b) (auto simp: assms split: sum.splits)

lemma Array_missing_child:
  "deserialize (ArraySerializer None) b =
     (case VarUInt32_deserialize b of Inl e \<Rightarrow> Inl e | Inr (len, b1) \<Rightarrow> Inr (VArr [], b1))"
  by (simp split: sum.splits)

lemma Object_missing_child:
  "deserialize (ObjectSerializer (sch1 @ (key, None) # sch2)) b
   = deserialize (ObjectSerializer (sch1 @ sch2)) b"
  by (simp add: foldM_skip)

lemma Tuple_missing_child:
  "deserialize (TupleSerializer (ss1 @ None # ss2)) b
   = deserialize (TupleSerializer (ss1 @ ss2)) b"
  by (simp add: foldM_skip)


section \<open>The claims\<close>

subsection \<open>C8: ByteBuffer.advance\<close>

text \<open>
  C8.  \<open>advance n\<close> throws the buffer-underflow error exactly when \<open>n\<close> exceeds the
  available bytes \<open>writePos - readPos\<close>.  When it throws, the buffer (and so the read
  cursor) is unchanged and no offset is returned; when it succeeds it returns the prior read
  offset and the read cursor has grown by exactly \<open>n\<close>, nothing else having changed.
\<close>

theorem C8_advance:
  "(isl (fst (advance n b)) \<longleftrightarrow> int n > int (writePos b) - int (readPos b)) \<and>
   (int n > int (writePos b) - int (readPos b) \<longrightarrow>
      advance n b = (Inl (BufferUnderflow n (int (writePos b) - int (readPos b))), b)) \<and>
   (int n \<le> int (writePos b) - int (readPos b) \<longrightarrow>
      fst (advance n b) = Inr (readPos b) \<and>
      readPos (snd (advance n b)) = readPos b + n \<and>
      writePos (snd (advance n b)) = writePos b \<and>
      bytes (snd (advance n b)) = bytes b)"
  by (simp add: advance_def available_def Let_def)

theorem C8_advance_witness:
  "(int 5 > int (writePos (fromBytes [1, 2, 3])) - int (readPos (fromBytes [1, 2, 3])) \<and>
    advance 5 (fromBytes [1, 2, 3]) =
      (Inl (BufferUnderflow 5 3), fromBytes [1, 2, 3])) \<and>
   (int 2 \<le> int (writePos (fromBytes [1, 2, 3])) - int (readPos (fromBytes [1, 2, 3])) \<and>
    fst (advance 2 (fromBytes [1, 2, 3])) = Inr 0 \<and>
    readPos (snd (advance 2 (fromBytes [1, 2, 3]))) = 2)"
proof -
  have w: "writePos (fromBytes [1, 2, 3]) = 3" and r: "readPos (fromBytes [1, 2, 3]) = 0"
    by code_simp+
  show ?thesis
    using C8_advance[of 5 "fromBytes [1, 2, 3]"] C8_advance[of 2 "fromBytes [1, 2, 3]"]
    by (simp add: w r)
qed

subsection \<open>C1, C3, C9: PacketEncoder\<close>

text \<open>
  C1 (as stated) fails for a buffer of odd length: \<open>encode\<close> pads the last byte with a
  zero high byte and \<open>decode\<close> writes both bytes of every unit, so the one-byte buffer
  \<open>[0x41]\<close> comes back as the two bytes \<open>[0x41, 0x00]\<close>.
\<close>

theorem C1_counterexample:
  "toUint8Array (decode (encode (fromBytes [0x41]) 2048)) \<noteq> toUint8Array (fromBytes [0x41])"
  by code_simp

text \<open>
  C1 (amended).  For every byte buffer and every size budget, decoding the fragment list
  produced by \<open>encode\<close> yields a buffer whose byte sequence is the original byte sequence
  when that has even length, and the original byte sequence followed by one zero byte when it
  has odd length.
\<close>

theorem C1_decode_encode:
  "toUint8Array (decode (encode buffer m)) =
     (if odd (length (toUint8Array buffer)) then toUint8Array buffer @ [0]
      else toUint8Array buffer)"
  using decode_encode_padEven[of buffer m] by (simp add: padEven_def)

theorem C1_decode_encode_witness:
  "toUint8Array (decode (encode (fromBytes [0x41, 0x42, 0x43]) 2)) = [0x41, 0x42, 0x43, 0] \<and>
   toUint8Array (decode (encode (fromBytes [0x41, 0x42, 0x43, 0x44]) 2)) = [0x41, 0x42, 0x43, 0x44]"
proof -
  have a: "toUint8Array (fromBytes [0x41, 0x42, 0x43]) = [0x41, 0x42, 0x43]"
    and b: "toUint8Array (fromBytes [0x41, 0x42, 0x43, 0x44]) = [0x41, 0x42, 0x43, 0x44]"
    by code_simp+
  show ?thesis
    using C1_decode_encode[of "fromBytes [0x41, 0x42, 0x43]" 2]
      C1_decode_encode[of "fromBytes [0x41, 0x42, 0x43, 0x44]" 2]
    by (simp add: a b)
qed

text \<open>
  C3 (as stated) fails for budgets below 3: a unit is never split, so with budget 1 the
  one-byte buffer \<open>[0x41]\<close> gives the fragments \<open>''\<close> and \<open>'41'\<close>, the second of cost 2.
\<close>

theorem C3_counterexample:
  "encode (fromBytes [0x41]) 1 = [[], [52, 49]] \<and>
   \<not> list_all (\<lambda>f. fragmentCost f \<le> 1) (encode (fromBytes [0x41]) 1)"
  by code_simp

text \<open>
  C3 (amended).  For every byte buffer and every size budget \<open>m \<ge> 3\<close>, every fragment
  produced by \<open>encode\<close> has accumulated cost at most \<open>m\<close>, where a 16-bit unit costs 2 when
  its value is \<open>\<le> 0xFF\<close> (two hexadecimal characters) and otherwise 2 if it is \<open>\<le> 0x7FF\<close>
  and 3 if not.
\<close>

theorem C3_fragment_cost:
  assumes "3 \<le> m"
  shows "list_all (\<lambda>f. fragmentCost f \<le> m) (encode buffer m)"
  using assms by (rule encode_cost_inv)

theorem C3_fragment_cost_witness:
  "(3::nat) \<le> 3 \<and>
   list_all (\<lambda>f. fragmentCost f \<le> 3)
     (encode (fromBytes [0x41, 0x42, 0x05, 0, 0, 0xD8, 0xFF]) 3)"
  using C3_fragment_cost[of 3 "fromBytes [0x41, 0x42, 0x05, 0, 0, 0xD8, 0xFF]"] by simp

text \<open>
  C9.  \<open>encode\<close> applied to an empty buffer (nothing written) returns exactly one fragment,
  the empty string, whatever the budget; \<open>decode\<close> applied to the one-element list holding
  the empty string returns an empty buffer.
\<close>

theorem C9_empty:
  "(writePos buffer = 0 \<longrightarrow> encode buffer m = [[]]) \<and>
   toUint8Array (decode [[]]) = [] \<and> writePos (decode [[]]) = 0 \<and> readPos (decode [[]]) = 0"
  by (simp add: encode_def toUint8Array_def decode_def newByteBuffer_def resetRead_def)

theorem C9_empty_witness:
  "writePos (newByteBuffer 256) = 0 \<and> encode (newByteBuffer 256) 2048 = [[]]"
  using C9_empty[of "newByteBuffer 256" 2048] by (simp add: newByteBuffer_def)

subsection \<open>C5, C6, C10: the reassembly listener\<close>

text \<open>
  C5.  Take a message of three fragments \<open>f0\<close>, \<open>f1\<close>, \<open>f2\<close> (what \<open>encode\<close> makes of a
  payload under a budget of at least 3, such as the emitter's 2048), headers that carry the
  indices 0, 1, 2 with the final flag on index 2, a listener that holds no entry for the
  guid, and a deserializer that decodes the reassembled payload to \<open>v\<close>.  Delivered in the
  order 2, 0, 1 the first two calls leave the subscriber alone and the third calls it with
  \<open>v\<close>; delivered in the order 0, 1, 2 the same happens, with the same value.
\<close>

theorem C5_out_of_order:
  assumes "encode payload m = [f0, f1, f2]" and "3 \<le> m" and "fb g = None"
    and "deserializer (decode [f0, f1, f2]) = Inr v"
  shows "snd (deliverAll deserializer fb
            [(createHeader g 2 True, f2), (createHeader g 0 False, f0),
             (createHeader g 1 False, f1)])
           = [NotCalled, NotCalled, Called v] \<and>
         snd (deliverAll deserializer fb
            [(createHeader g 0 False, f0), (createHeader g 1 False, f1),
             (createHeader g 2 True, f2)])
           = [NotCalled, NotCalled, Called v]"
proof -
  have "f0 \<noteq> [] \<and> f1 \<noteq> [] \<and> f2 \<noteq> []"
    using encode_nonempty[OF assms(2), of payload] assms(1) by simp
  then show ?thesis
    using reassemble_any_order[of fb g f0 f1 f2 deserializer v] assms(3,4) by simp
qed

theorem C5_out_of_order_witness:
  "encode (fromBytes [0x41, 0x42, 0x43, 0x44, 0x45, 0x46]) 3 = [[0x4241], [0x4443], [0x4645]] \<and>
   snd (deliverAll (\<lambda>b. Inr (toUint8Array b)) Map.empty
          [(createHeader [] 2 True, [0x4645]), (createHeader [] 0 False, [0x4241]),
           (createHeader [] 1 False, [0x4443])])
     = [NotCalled, NotCalled, Called [0x41, 0x42, 0x43, 0x44, 0x45, 0x46]] \<and>
   snd (deliverAll (\<lambda>b. Inr (toUint8Array b)) Map.empty
          [(createHeader [] 0 False, [0x4241]), (createHeader [] 1 False, [0x4443]),
           (createHeader [] 2 True, [0x4645])])
     = [NotCalled, NotCalled, Called [0x41, 0x42, 0x43, 0x44, 0x45, 0x46]]"
proof -
  have e: "encode (fromBytes [0x41, 0x42, 0x43, 0x44, 0x45, 0x46]) 3
           = [[0x4241], [0x4443], [0x4645]]"
    by code_simp
  have d: "(Inr (toUint8Array (decode [[0x4241], [0x4443], [0x4645]])) :: error + byte list)
           = Inr [0x41, 0x42, 0x43, 0x44, 0x45, 0x46]"
    by code_simp
  have m: "(3::nat) \<le> 3" and n: "(Map.empty :: jsstring \<rightharpoonup> FragmentEntry) [] = None"
    by simp_all
  show ?thesis
    using C5_out_of_order[OF e m n, of "\<lambda>b. Inr (toUint8Array b)", OF d] e by simp
qed

text \<open>
  C6.  Whenever a call of the listener calls the subscriber, the entry of that guid, as
  updated by the call, satisfies the completion predicate: its expected count is not \<open>-1\<close>
  and equals the number of received indices.  In particular, after fragments 0 and 1 of a
  message whose final flag is on index 2 have been delivered to a listener that held no
  entry for the guid, the subscriber has not been called.
\<close>

theorem C6_no_early_dispatch:
  "(snd (listener deserializer fb header fragment) = Called v \<longrightarrow>
      entrySize (updateEntry fb header fragment) \<noteq> -1 \<and>
      int (card (entryReceived (updateEntry fb header fragment)))
        = entrySize (updateEntry fb header fragment)) \<and>
   (fb g = None \<longrightarrow>
      snd (deliverAll deserializer fb
             [(createHeader g 0 False, f0), (createHeader g 1 False, f1)])
        = [NotCalled, NotCalled])"
proof -
  have "snd (listener deserializer fb header fragment) = Called v \<longrightarrow>
        isComplete (updateEntry fb header fragment)"
    using listener_Called_complete[of deserializer fb header fragment v] by simp
  moreover have "fb g = None \<longrightarrow>
      snd (deliverAll deserializer fb
             [(createHeader g 0 False, f0), (createHeader g 1 False, f1)])
        = [NotCalled, NotCalled]"
    by (simp add: listener_def updateEntry_def isComplete_def createHeader_def Let_def)
  ultimately show ?thesis by (simp add: isComplete_def)
qed

theorem C6_no_early_dispatch_witness:
  "snd (listener (\<lambda>b. Inr (toUint8Array b)) Map.empty (createHeader [] 0 True) [0x4241])
     = Called [0x41, 0x42] \<and>
   entrySize (updateEntry Map.empty (createHeader [] 0 True) [0x4241]) = 1 \<and>
   card (entryReceived (updateEntry Map.empty (createHeader [] 0 True) [0x4241])) = 1 \<and>
   snd (deliverAll (\<lambda>b. Inr (toUint8Array b)) Map.empty
          [(createHeader [] 0 False, [0x4241]), (createHeader [] 1 False, [0x4443])])
     = [NotCalled, NotCalled]"
proof -
  have d: "toUint8Array (decode [[0x4241]]) = [0x41, 0x42]"
    by code_simp
  have c: "snd (listener (\<lambda>b. Inr (toUint8Array b)) Map.empty (createHeader [] 0 True) [0x4241])
           = (Called [0x41, 0x42] :: byte list outcome)"
    by (simp add: listener_def updateEntry_def isComplete_def collectFragments_def
        createHeader_def Let_def d)
  show ?thesis
    using C6_no_early_dispatch[of "\<lambda>b. Inr (toUint8Array b)" Map.empty
        "createHeader [] 0 True" "[0x4241]" "[0x41, 0x42]" "[]" "[0x4241]" "[0x4443]"] c
    by (simp add: updateEntry_def createHeader_def)
qed

text \<open>
  C10.  When the completion predicate holds for the updated entry but the fragment stored
  at some index \<open>i\<close> below the expected count is the empty string, the listener throws a
  missing-fragment error instead of calling the subscriber, and keeps the entry; the error
  names \<open>i\<close> when every lower index holds a non-empty fragment.  Consequently a message
  with a zero-length payload, which the emitter sends as the single empty fragment with
  index 0 and the final flag, is never delivered: whatever the listener holds, that call
  does not call the subscriber, and on a listener with no entry for the guid it throws
  \<open>Missing fragment at index 0\<close>.
\<close>

theorem C10_empty_fragment:
  "(isComplete (updateEntry fb header fragment) \<and>
    i < nat (entrySize (updateEntry fb header fragment)) \<and>
    entryFragments (updateEntry fb header fragment) i = Some [] \<longrightarrow>
      (\<exists>j\<le>i. listener deserializer fb header fragment
               = (fb(guid header \<mapsto> updateEntry fb header fragment),
                  Thrown (MissingFragment j))) \<and>
      ((\<forall>k<i. entryFragments (updateEntry fb header fragment) k \<noteq> None \<and>
               entryFragments (updateEntry fb header fragment) k \<noteq> Some []) \<longrightarrow>
         snd (listener deserializer fb header fragment) = Thrown (MissingFragment i))) \<and>
   (writePos payload = 0 \<longrightarrow> emitFragments g payload = [(createHeader g 0 True, [])]) \<and>
   snd (listener deserializer fb (createHeader g 0 True) []) \<noteq> Called v \<and>
   (fb g = None \<longrightarrow>
      snd (listener deserializer fb (createHeader g 0 True) []) = Thrown (MissingFragment 0))"
proof -
  have a: "snd (listener deserializer fb (createHeader g 0 True) []) \<noteq> Called v"
    using listener_empty_final[of deserializer fb g] by auto
  have b: "isComplete (updateEntry fb header fragment) \<and>
    i < nat (entrySize (updateEntry fb header fragment)) \<and>
    entryFragments (updateEntry fb header fragment) i = Some [] \<longrightarrow>
      (\<exists>j\<le>i. listener deserializer fb header fragment
               = (fb(guid header \<mapsto> updateEntry fb header fragment),
                  Thrown (MissingFragment j)))"
    using listener_some_missing[of fb header fragment i deserializer] by blast
  have c: "isComplete (updateEntry fb header fragment) \<and>
    i < nat (entrySize (updateEntry fb header fragment)) \<and>
    entryFragments (updateEntry fb header fragment) i = Some [] \<longrightarrow>
      ((\<forall>k<i. entryFragments (updateEntry fb header fragment) k \<noteq> None \<and>
               entryFragments (updateEntry fb header fragment) k \<noteq> Some []) \<longrightarrow>
         snd (listener deserializer fb header fragment) = Thrown (MissingFragment i))"
    using listener_first_missing[of fb header fragment i deserializer] by simp
  show ?thesis
    using a b c emitFragments_empty[of payload g]
      listener_empty_final_fresh[of fb g deserializer]
    by blast
qed

theorem C10_empty_fragment_witness:
  "isComplete (updateEntry Map.empty (createHeader [] 0 True) []) \<and>
   (0::nat) < nat (entrySize (updateEntry Map.empty (createHeader [] 0 True) [])) \<and>
   entryFragments (updateEntry Map.empty (createHeader [] 0 True) []) 0 = Some [] \<and>
   snd (listener (\<lambda>b. Inr (toUint8Array b)) Map.empty (createHeader [] 0 True) [])
     = Thrown (MissingFragment 0) \<and>
   emitFragments [] (newByteBuffer 256) = [(createHeader [] 0 True, [])]"
proof -
  have h: "isComplete (updateEntry Map.empty (createHeader [] 0 True) []) \<and>
     (0::nat) < nat (entrySize (updateEntry Map.empty (createHeader [] 0 True) [])) \<and>
     entryFragments (updateEntry Map.empty (createHeader [] 0 True) []) 0 = Some []"
    by (simp add: updateEntry_def createHeader_def isComplete_def)
  have w: "writePos (newByteBuffer 256) = 0"
    by (simp add: newByteBuffer_def)
  show ?thesis
    using C10_empty_fragment[of Map.empty "createHeader [] 0 True" "[]" 0
        "\<lambda>b. Inr (toUint8Array b)" "newByteBuffer 256" "[]" "[]"] h w
    by simp
qed

subsection \<open>C7: variable-length integers\<close>

text \<open>
  C7.  Serializing the unsigned integer 127 with \<open>VarUInt32\<close> writes exactly one byte
  (\<open>0x7F\<close>) and 128 exactly two (\<open>0x80\<close>, \<open>0x01\<close>); serializing the signed integer \<open>-1\<close>
  with the zigzag serializer \<open>VarInt32\<close> writes the same single byte (\<open>0x01\<close>) as
  serializing the unsigned integer 1.
\<close>

theorem C7_varint_boundary:
  "VarUInt32_serialize 127 b = writeByte 0x7F b \<and>
   writePos (VarUInt32_serialize 127 b) = writePos b + 1 \<and>
   VarUInt32_serialize 128 b = writeByte 0x01 (writeByte 0x80 b) \<and>
   writePos (VarUInt32_serialize 128 b) = writePos b + 2 \<and>
   VarInt32_serialize (-1) b = VarUInt32_serialize 1 b \<and>
   VarUInt32_serialize 1 b = writeByte 0x01 b \<and>
   writePos (VarInt32_serialize (-1) b) = writePos b + 1 \<and>
   toUint8Array (VarUInt32_serialize 127 (newByteBuffer 256)) = [0x7F] \<and>
   toUint8Array (VarUInt32_serialize 128 (newByteBuffer 256)) = [0x80, 0x01] \<and>
   toUint8Array (VarInt32_serialize (-1) (newByteBuffer 256)) = [0x01] \<and>
   toUint8Array (VarUInt32_serialize 1 (newByteBuffer 256)) = [0x01]"
proof -
  have a: "VarUInt32_serialize 127 b = writeByte 0x7F b" for b
    by (simp add: VarUInt32_serialize_def varUInt32Loop.simps[of 127])
  have c: "VarUInt32_serialize 128 b = writeByte 0x01 (writeByte 0x80 b)" for b
    by (simp add: VarUInt32_serialize_def varUInt32Loop.simps[of 128]
        varUInt32Loop.simps[of 1])
  have d: "VarUInt32_serialize 1 b = writeByte 0x01 b" for b
    by (simp add: VarUInt32_serialize_def varUInt32Loop.simps[of 1])
  have e: "VarInt32_serialize (-1) b = VarUInt32_serialize 1 b" for b
    by (simp add: VarInt32_serialize_def)
  have n: "toUint8Array (newByteBuffer 256) = []"
    by (simp add: toUint8Array_def newByteBuffer_def)
  show ?thesis
    by (simp add: a c d e n writePos_writeByte toUint8Array_writeByte wfBuffer_writeByte
        wfBuffer_new)
qed

subsection \<open>C2, C4: the serializers\<close>

text \<open>
  C2 (as stated) fails on three kinds of value of a serializer's type.  The value \<open>null\<close>
  of the type \<open>T | undefined | null\<close> of an optional serializer: \<open>serialize\<close> writes the
  absent flag for \<open>null\<close> as for \<open>undefined\<close>, and \<open>deserialize\<close> (whose result type is
  \<open>T | undefined\<close>) returns \<open>undefined\<close>.  A Number that binary32 does not hold, under
  \<open>Float32\<close>: \<open>setFloat32\<close> rounds 0.1 (\<open>0x3FB999999999999A\<close>) to the binary32 value
  \<open>0x3DCCCCCD\<close>, which \<open>getFloat32\<close> returns as the Number 0.10000000149011612
  (\<open>0x3FB99999A0000000\<close>).  An object with a property \<open>__proto__\<close> of its own, under a
  schema with that key: the field is written and read, and the assignment
  \<open>result["__proto__"] = true\<close> stores nothing.
\<close>

theorem C2_counterexample:
  "serialize (OptionalSerializer BooleanSerializer) VNull (newByteBuffer 4)
     = Inr \<lparr>bytes = [0, 0, 0, 0], writePos = 1, readPos = 0\<rparr> \<and>
   deserialize (OptionalSerializer BooleanSerializer)
       \<lparr>bytes = [0, 0, 0, 0], writePos = 1, readPos = 0\<rparr>
     = Inr (VUndefined, \<lparr>bytes = [0, 0, 0, 0], writePos = 1, readPos = 1\<rparr>) \<and>
   VUndefined \<noteq> VNull \<and>
   isNumber 0x3FB999999999999A \<and>
   serialize Float32Serializer (VNum 0x3FB999999999999A) (newByteBuffer 4)
     = Inr \<lparr>bytes = [0x3D, 0xCC, 0xCC, 0xCD], writePos = 4, readPos = 0\<rparr> \<and>
   deserialize Float32Serializer \<lparr>bytes = [0x3D, 0xCC, 0xCC, 0xCD], writePos = 4, readPos = 0\<rparr>
     = Inr (VNum 0x3FB99999A0000000,
            \<lparr>bytes = [0x3D, 0xCC, 0xCC, 0xCD], writePos = 4, readPos = 4\<rparr>) \<and>
   VNum 0x3FB99999A0000000 \<noteq> VNum 0x3FB999999999999A \<and>
   serialize (ObjectSerializer [(ascii ''__proto__'', Some BooleanSerializer)])
       (VObj [(ascii ''__proto__'', VBool True)]) (newByteBuffer 4)
     = Inr \<lparr>bytes = [1, 0, 0, 0], writePos = 1, readPos = 0\<rparr> \<and>
   deserialize (ObjectSerializer [(ascii ''__proto__'', Some BooleanSerializer)])
       \<lparr>bytes = [1, 0, 0, 0], writePos = 1, readPos = 0\<rparr>
     = Inr (VObj [], \<lparr>bytes = [1, 0, 0, 0], writePos = 1, readPos = 1\<rparr>) \<and>
   VObj [] \<noteq> VObj [(ascii ''__proto__'', VBool True)]"
  by code_simp

text \<open>
  C2 (amended).  For every serializer kind the framework provides (boolean, fixed-width
  signed and unsigned integers, floats, variable-length integers, string, array, object,
  tuple, optional, map, set) and every valid value \<open>v\<close> of the serializer's type,
  serializing \<open>v\<close> into a buffer with nothing left to read succeeds, and deserializing
  from that buffer returns \<open>v\<close> and leaves nothing to read, where \<open>valid\<close> leaves out: a
  \<open>null\<close> standing for an absent optional value; under \<open>Float32\<close>, a Number that binary32
  does not hold exactly; under an integer class, \<open>-0\<close>; and an object schema with the key
  \<open>__proto__\<close>.  In particular the object \<open>{name: "Steve", level: 10}\<close> under the schema
  \<open>{name: String, level: Int32}\<close> round-trips to an equal structure.  Of the values left
  out, \<open>null\<close> under an optional serializer is read back as \<open>undefined\<close>, and a Number
  under \<open>Float32\<close> is read back as the binary32 value nearest to it, which is the Number
  itself exactly when binary32 holds it.  (Values are equal when they are the same value:
  NaN is equal to NaN, and \<open>-0\<close> is not \<open>+0\<close>.)
\<close>

theorem C2_round_trip:
  "(valid s v \<and> wfBuffer b \<and> readPos b = writePos b \<longrightarrow>
      (\<exists>b1 b2. serialize s v b = Inr b1 \<and> deserialize s b1 = Inr (v, b2) \<and>
         readPos b2 = writePos b2)) \<and>
   (\<exists>b1 b2.
      serialize
        (ObjectSerializer [([110, 97, 109, 101], Some StringSerializer),
                           ([108, 101, 118, 101, 108], Some Int32Serializer)])
        (VObj [([110, 97, 109, 101], VStr [83, 116, 101, 118, 101]),
               ([108, 101, 118, 101, 108], VNum (numberOfInt 10))])
        (newByteBuffer 256) = Inr b1 \<and>
      deserialize
        (ObjectSerializer [([110, 97, 109, 101], Some StringSerializer),
                           ([108, 101, 118, 101, 108], Some Int32Serializer)])
        b1
      = Inr (VObj [([110, 97, 109, 101], VStr [83, 116, 101, 118, 101]),
                   ([108, 101, 118, 101, 108], VNum (numberOfInt 10))], b2)) \<and>
   (wfBuffer b \<and> readPos b = writePos b \<longrightarrow>
      (\<exists>b1 b2. serialize (OptionalSerializer s) VNull b = Inr b1 \<and>
         deserialize (OptionalSerializer s) b1 = Inr (VUndefined, b2) \<and>
         readPos b2 = writePos b2)) \<and>
   (isNumber d \<and> wfBuffer b \<and> readPos b = writePos b \<longrightarrow>
      (\<exists>b1 b2. serialize Float32Serializer (VNum d) b = Inr b1 \<and>
         deserialize Float32Serializer b1 = Inr (VNum (numberOfFloat32 (float32Bits d)), b2) \<and>
         readPos b2 = writePos b2) \<and>
      (numberOfFloat32 (float32Bits d) = d \<longleftrightarrow> representable 8 23 (decodeNumber d)))"
proof -
  let ?S = "ObjectSerializer [([110, 97, 109, 101], Some StringSerializer),
                             ([108, 101, 118, 101, 108], Some Int32Serializer)]"
  let ?V = "VObj [([110, 97, 109, 101], VStr [83, 116, 101, 118, 101]),
                  ([108, 101, 118, 101, 108], VNum (numberOfInt 10))]"
  have "valid ?S ?V"
    by (simp add: isInteger_numberOfInt toInteger_numberOfInt protoKey_def ascii_def)
  moreover have "wfBuffer (newByteBuffer 256)" by (rule wfBuffer_new)
  moreover have "readPos (newByteBuffer 256) = writePos (newByteBuffer 256)"
    by (simp add: newByteBuffer_def)
  ultimately have "\<exists>b1 b2. serialize ?S ?V (newByteBuffer 256) = Inr b1 \<and>
      deserialize ?S b1 = Inr (?V, b2) \<and> readPos b2 = writePos b2"
    by (rule round_trip)
  then show ?thesis
    using round_trip[of s v b] codec_round_trip[OF codec_Optional_null[of s], of b]
      codec_round_trip[OF codec_Float32[of d], of b] float32_exact_iff[of d]
    by blast
qed

theorem C2_round_trip_witness:
  "valid (TupleSerializer [Some Int32Serializer, Some Float32Serializer, Some Float64Serializer])
     (VArr [VNum (numberOfInt 10), VNum 0x4010000000000000, VNum 0x3FB999999999999A]) \<and>
   wfBuffer (newByteBuffer 256) \<and>
   readPos (newByteBuffer 256) = writePos (newByteBuffer 256) \<and>
   isNumber 0x3FB999999999999A \<and>
   (\<exists>b1 b2.
      serialize (TupleSerializer [Some Int32Serializer, Some Float32Serializer, Some Float64Serializer])
        (VArr [VNum (numberOfInt 10), VNum 0x4010000000000000, VNum 0x3FB999999999999A])
        (newByteBuffer 256) = Inr b1 \<and>
      deserialize (TupleSerializer [Some Int32Serializer, Some Float32Serializer, Some Float64Serializer])
        b1
        = Inr (VArr [VNum (numberOfInt 10), VNum 0x4010000000000000, VNum 0x3FB999999999999A], b2) \<and>
      readPos b2 = writePos b2) \<and>
   (\<exists>b1 b2.
      serialize (OptionalSerializer StringSerializer) VNull (newByteBuffer 256) = Inr b1 \<and>
      deserialize (OptionalSerializer StringSerializer) b1 = Inr (VUndefined, b2) \<and>
      readPos b2 = writePos b2) \<and>
   (\<exists>b1 b2.
      serialize Float32Serializer (VNum 0x3FB999999999999A) (newByteBuffer 256) = Inr b1 \<and>
      deserialize Float32Serializer b1 = Inr (VNum 0x3FB99999A0000000, b2) \<and>
      readPos b2 = writePos b2) \<and>
   \<not> representable 8 23 (decodeNumber 0x3FB999999999999A)"
proof -
  let ?S = "TupleSerializer [Some Int32Serializer, Some Float32Serializer, Some Float64Serializer]"
  let ?V = "VArr [VNum (numberOfInt 10), VNum 0x4010000000000000, VNum 0x3FB999999999999A]"
  have v: "valid ?S ?V" by code_simp
  have w: "wfBuffer (newByteBuffer 256)" by (rule wfBuffer_new)
  have r: "readPos (newByteBuffer 256) = writePos (newByteBuffer 256)"
    by (simp add: newByteBuffer_def)
  have n: "isNumber 0x3FB999999999999A" by code_simp
  have f: "numberOfFloat32 (float32Bits 0x3FB999999999999A) = 0x3FB99999A0000000" by code_simp
  have p: "\<not> representable 8 23 (decodeNumber 0x3FB999999999999A)" by code_simp
  show ?thesis
    using C2_round_trip[where s = ?S and v = ?V and b = "newByteBuffer 256"
        and d = "0x3FB999999999999A"]
      C2_round_trip[where s = StringSerializer and v = ?V and b = "newByteBuffer 256"
        and d = "0x3FB999999999999A"]
      v w r n f p
    by simp
qed

text \<open>
  C4 (as stated) fails for a missing child serializer: with an \<open>undefined\<close> element
  serializer the array deserializer returns the empty array although the buffer announces
  three elements; with an \<open>undefined\<close> position or field serializer the tuple and object
  deserializers return the value built without it.  None of them throws.
\<close>

theorem C4_counterexample:
  "deserialize (ArraySerializer None) (fromBytes [3, 1, 2, 3])
     = Inr (VArr [], \<lparr>bytes = [3, 1, 2, 3], writePos = 4, readPos = 1\<rparr>) \<and>
   deserialize (TupleSerializer [None]) (fromBytes [3, 1, 2, 3])
     = Inr (VArr [], \<lparr>bytes = [3, 1, 2, 3], writePos = 4, readPos = 0\<rparr>) \<and>
   deserialize (ObjectSerializer [([110, 97, 109, 101], None)]) (fromBytes [3, 1, 2, 3])
     = Inr (VObj [], \<lparr>bytes = [3, 1, 2, 3], writePos = 4, readPos = 0\<rparr>)"
  by code_simp

text \<open>
  C4 (amended).  Insufficient remaining bytes raise an explicit error: a fixed-width read
  of \<open>n\<close> bytes with fewer than \<open>n\<close> available throws the buffer-underflow error, the
  variable-length reader throws its underflow error when nothing is available, and
  deserializing any proper prefix of the serialization of a valid value throws instead of
  returning a default or partly filled value.  A missing child serializer raises nothing:
  with an \<open>undefined\<close> element serializer the array deserializer (after logging) returns
  the empty array once the length is read, and the object and tuple deserializers (after
  logging) skip an \<open>undefined\<close> field or position and return what the other children
  give.
\<close>

theorem C4_error_policy:
  "(valid s v \<and> serialize s v (newByteBuffer n) = Inr b1 \<and> k < writePos b1 \<longrightarrow>
      (\<exists>e. deserialize s (fromBytes (take k (toUint8Array b1))) = Inl e)) \<and>
   (int m > available b \<longrightarrow> loadBE m b = Inl (BufferUnderflow m (available b))) \<and>
   (available b \<le> 0 \<longrightarrow> VarUInt32_deserialize b = Inl (VarUInt32Underflow 0)) \<and>
   deserialize (ArraySerializer None) b =
     (case VarUInt32_deserialize b of
        Inl e \<Rightarrow> Inl e
      | Inr (len, b2) \<Rightarrow> Inr (VArr [], b2)) \<and>
   deserialize (ObjectSerializer (sch1 @ (key, None) # sch2)) b
     = deserialize (ObjectSerializer (sch1 @ sch2)) b \<and>
   deserialize (TupleSerializer (ss1 @ None # ss2)) b
     = deserialize (TupleSerializer (ss1 @ ss2)) b"
  using truncated_fails[of s v n b1 k] loadBE_underflow_error[of b m]
    VarUInt32_underflow_error[of b] Array_missing_child[of b]
    Object_missing_child[of sch1 key sch2 b] Tuple_missing_child[of ss1 ss2 b]
  by blast


theorem C4_error_policy_witness:
  "valid StringSerializer (VStr [83, 116, 101, 118, 101]) \<and>
   serialize StringSerializer (VStr [83, 116, 101, 118, 101]) (newByteBuffer 8)
     = Inr \<lparr>bytes = [5, 83, 116, 101, 118, 101, 0, 0], writePos = 6, readPos = 0\<rparr> \<and>
   (3::nat) < writePos \<lparr>bytes = [5, 83, 116, 101, 118, 101, 0, 0], writePos = 6, readPos = 0\<rparr> \<and>
   (\<exists>e. deserialize StringSerializer (fromBytes [5, 83, 116]) = Inl e) \<and>
   int 4 > available (fromBytes [1, 2, 3]) \<and>
   loadBE 4 (fromBytes [1, 2, 3]) = Inl (BufferUnderflow 4 3) \<and>
   available (newByteBuffer 8) \<le> 0 \<and>
   VarUInt32_deserialize (newByteBuffer 8) = Inl (VarUInt32Underflow 0)"
proof -
  let ?b1 = "\<lparr>bytes = [5, 83, 116, 101, 118, 101, 0, 0], writePos = 6, readPos = 0\<rparr>"
  have v: "valid StringSerializer (VStr [83, 116, 101, 118, 101])" by simp
  have s: "serialize StringSerializer (VStr [83, 116, 101, 118, 101]) (newByteBuffer 8) = Inr ?b1"
    by code_simp
  have k: "(3::nat) < writePos ?b1" by simp
  have t: "take 3 (toUint8Array ?b1) = [5, 83, 116]" by code_simp
  have a: "available (fromBytes [1, 2, 3]) = 3" by code_simp
  have n: "available (newByteBuffer 8) = 0" by (simp add: available_def newByteBuffer_def)
  show ?thesis
    using C4_error_policy[where s = StringSerializer and v = "VStr [83, 116, 101, 118, 101]"
        and n = 8 and ?b1.0 = ?b1 and k = 3 and m = 4 and b = "fromBytes [1, 2, 3]"]
      C4_error_policy[where s = StringSerializer and v = "VStr [83, 116, 101, 118, 101]"
        and n = 8 and ?b1.0 = ?b1 and k = 3 and m = 4 and b = "newByteBuffer 8"]
      v s k t a n
    by simp
qed

end
